theory Spec2Isabelle
  imports Main "HOL-Library.Word" "HOL-Library.List_Lexorder"
begin

section \<open>The pointer trie: data model\<close>

text \<open>
  A key is a Go \<open>[]byte\<close>. Go distinguishes the nil slice from the empty slice, and the
  operations test \<open>key == nil\<close>, so an argument key is a \<open>byte list option\<close> with
  \<open>None\<close> for nil. Keys are ordered lexicographically by unsigned byte
  (\<open>bytes.Compare\<close>), which is the order of \<open>List_Lexorder\<close> over \<open>8 word\<close>.
\<close>

type_synonym byte = "8 word"

text \<open>
  \<open>type node[V any] struct { value V; children []*node[V]; keyByte byte; isTerminal bool }\<close>.
  The field \<open>value\<close> is called \<open>val\<close> here. Nodes are only ever created
  by \<open>Put\<close> and linked under one parent, so the pointer structure is a tree and the
  mutating methods are modelled by returning the new root.
  The zero value of the type parameter \<open>V\<close> is \<open>0\<close> of class \<open>zero\<close>.
\<close>

datatype 'v node =
  Node (val: 'v) (children: "'v node list") (keyByte: byte) (isTerminal: bool)

datatype error = NilKey  \<comment> \<open>\<open>panic("key must be non-nil")\<close>\<close>

text \<open>\<open>NewPointerTrie\<close>: \<open>&node[V]{zero, nil, 0, false}\<close>.\<close>

definition NewPointerTrie :: "'v::zero node" where
  "NewPointerTrie = Node 0 [] 0 False"

subsection \<open>search\<close>

text \<open>
  \<open>search\<close> scans the children from index 0: equal byte returns \<open>(i, true)\<close>, the first larger
  byte returns \<open>(i, false)\<close>, the end returns \<open>(len, false)\<close>.
\<close>

fun search_loop :: "nat \<Rightarrow> 'v node list \<Rightarrow> byte \<Rightarrow> nat \<times> bool" where
  "search_loop i [] byt = (i, False)"
| "search_loop i (c # cs) byt =
     (if byt = keyByte c then (i, True)
      else if byt < keyByte c then (i, False)
      else search_loop (Suc i) cs byt)"

definition search :: "'v node \<Rightarrow> byte \<Rightarrow> nat \<times> bool" where
  "search n byt = search_loop 0 (children n) byt"

subsection \<open>Put\<close>

text \<open>
  The chain built when a byte is missing: the last key byte becomes a terminal node holding
  the value, and every earlier byte of the remaining suffix wraps it in a non-terminal
  node with that single child (the loop \<open>for k--; k >= i; k--\<close>).
\<close>

definition newChain :: "byte list \<Rightarrow> 'v \<Rightarrow> 'v::zero node" where
  "newChain ks v =
     foldr (\<lambda>b child. Node 0 [child] b False) (butlast ks) (Node v [] (last ks) True)"

text \<open>\<open>append\<close>, \<open>copy\<close> one to the right, store at \<open>index\<close>.\<close>

definition insertAt :: "'a list \<Rightarrow> nat \<Rightarrow> 'a \<Rightarrow> 'a list" where
  "insertAt xs index x = take index xs @ x # drop index xs"

text \<open>
  The loop \<open>for i, keyByte := range key\<close> of \<open>Put\<close>, on the remaining key bytes; the result
  is the node as mutated, the returned value and the returned flag.
\<close>

fun put_loop :: "'v::zero node \<Rightarrow> byte list \<Rightarrow> 'v \<Rightarrow> 'v node \<times> 'v \<times> bool" where
  "put_loop n [] v =
     (if isTerminal n then (Node v (children n) (keyByte n) True, val n, True)
      else (Node v (children n) (keyByte n) True, 0, False))"
| "put_loop n (b # ks) v =
     (case search n b of
        (index, False) \<Rightarrow>
          (Node (val n) (insertAt (children n) index (newChain (b # ks) v))
                (keyByte n) (isTerminal n), 0, False)
      | (index, True) \<Rightarrow>
          (case put_loop (children n ! index) ks v of
             (c, prev, existed) \<Rightarrow>
               (Node (val n) ((children n)[index := c]) (keyByte n) (isTerminal n),
                prev, existed)))"

definition Put :: "'v::zero node \<Rightarrow> byte list option \<Rightarrow> 'v \<Rightarrow> error + ('v node \<times> 'v \<times> bool)" where
  "Put n key v = (case key of None \<Rightarrow> Inl NilKey | Some ks \<Rightarrow> Inr (put_loop n ks v))"

subsection \<open>Get\<close>

fun get_loop :: "'v::zero node \<Rightarrow> byte list \<Rightarrow> 'v \<times> bool" where
  "get_loop n [] = (if isTerminal n then (val n, True) else (0, False))"
| "get_loop n (b # ks) =
     (case search n b of
        (index, False) \<Rightarrow> (0, False)
      | (index, True) \<Rightarrow> get_loop (children n ! index) ks)"

definition Get :: "'v::zero node \<Rightarrow> byte list option \<Rightarrow> error + ('v \<times> bool)" where
  "Get n key = (case key of None \<Rightarrow> Inl NilKey | Some ks \<Rightarrow> Inr (get_loop n ks))"

subsection \<open>Delete\<close>

text \<open>
  \<open>Delete\<close> walks down with two pointers: \<open>n\<close>, and the prune anchor \<open>prune\<close> with
  \<open>pruneIndex\<close>. A pointer into the tree is the list of child indices leading to the node
  from the root. \<open>nodeAt\<close> dereferences such a pointer and \<open>updateAt\<close> writes through it.
\<close>

fun nodeAt :: "'v node \<Rightarrow> nat list \<Rightarrow> 'v node" where
  "nodeAt n [] = n"
| "nodeAt n (i # p) = nodeAt (children n ! i) p"

fun updateAt :: "'v node \<Rightarrow> nat list \<Rightarrow> ('v node \<Rightarrow> 'v node) \<Rightarrow> 'v node" where
  "updateAt n [] f = f n"
| "updateAt n (i # p) f =
     Node (val n) ((children n)[i := updateAt (children n ! i) p f]) (keyByte n) (isTerminal n)"

text \<open>
  The loop \<open>for _, keyByte := range key\<close> of \<open>Delete\<close>: \<open>here\<close> is the pointer \<open>n\<close>,
  \<open>prune\<close> the pair of the anchor pointer and \<open>pruneIndex\<close>. \<open>None\<close> is the early
  \<open>return zero, false\<close>.
\<close>

fun delete_loop ::
  "'v node \<Rightarrow> byte list \<Rightarrow> nat list \<Rightarrow> nat list \<times> nat \<Rightarrow> (nat list \<times> nat list \<times> nat) option" where
  "delete_loop n [] here prune = Some (here, prune)"
| "delete_loop n (b # ks) here prune =
     (case search n b of
        (index, False) \<Rightarrow> None
      | (index, True) \<Rightarrow>
          delete_loop (children n ! index) ks (here @ [index])
            (if isTerminal n \<or> length (children n) > 1 then (here, index) else prune))"

text \<open>\<open>n.value = zero; n.isTerminal = false\<close>.\<close>

definition clearNode :: "'v::zero node \<Rightarrow> 'v node" where
  "clearNode n = Node 0 (children n) (keyByte n) False"

text \<open>\<open>prune.children = append(prune.children[:pruneIndex], prune.children[pruneIndex+1:]...)\<close>.\<close>

definition removeChild :: "nat \<Rightarrow> 'v node \<Rightarrow> 'v node" where
  "removeChild i n =
     Node (val n) (take i (children n) @ drop (Suc i) (children n)) (keyByte n) (isTerminal n)"

definition delete_key :: "'v::zero node \<Rightarrow> byte list \<Rightarrow> 'v node \<times> 'v \<times> bool" where
  "delete_key root ks =
     (if ks = [] then
        (if \<not> isTerminal root then (root, 0, False)
         else (clearNode root, val root, True))
      else
        (case delete_loop root ks [] ([], 0) of
           None \<Rightarrow> (root, 0, False)
         | Some (here, prune, pruneIndex) \<Rightarrow>
             (let n = nodeAt root here in
              if \<not> isTerminal n then (root, 0, False)
              else
                (let root1 = updateAt root here clearNode;
                     root2 = (if children n = [] then updateAt root1 prune (removeChild pruneIndex)
                              else root1)
                 in (root2, val n, True)))))"

definition Delete :: "'v::zero node \<Rightarrow> byte list option \<Rightarrow> error + ('v node \<times> 'v \<times> bool)" where
  "Delete n key = (case key of None \<Rightarrow> Inl NilKey | Some ks \<Rightarrow> Inr (delete_key n ks))"

section \<open>Paths, invariants and reachable states\<close>

text \<open>
  \<open>Put\<close>, \<open>Get\<close> and \<open>Delete\<close> share one descent: \<open>search\<close> for the next key byte, stop
  when it is missing, otherwise step to \<open>n.children[index]\<close>. \<open>descend\<close> is the pointer
  (the list of child indices) to the node that this descent reaches for the whole key, or
  \<open>None\<close> when a byte is missing on the way.
\<close>

fun descend :: "'v node \<Rightarrow> byte list \<Rightarrow> nat list option" where
  "descend n [] = Some []"
| "descend n (b # ks) =
     (case search n b of
        (index, False) \<Rightarrow> None
      | (index, True) \<Rightarrow> map_option ((#) index) (descend (children n ! index) ks))"

text \<open>Every node's children are strictly ascending by key byte (so no byte occurs twice).\<close>

fun sortedChildren :: "'v node \<Rightarrow> bool" where
  "sortedChildren (Node v cs b t) =
     (sorted_wrt (<) (map keyByte cs) \<and> (\<forall>c \<in> set cs. sortedChildren c))"

text \<open>
  A dead node is non-terminal and childless. \<open>noDeadBelow n\<close>: no node strictly below \<open>n\<close>
  is dead, that is, every leaf other than \<open>n\<close> itself is terminal.
\<close>

definition dead :: "'v node \<Rightarrow> bool" where
  "dead n = (\<not> isTerminal n \<and> children n = [])"

fun noDeadBelow :: "'v node \<Rightarrow> bool" where
  "noDeadBelow (Node v cs b t) = (\<forall>c \<in> set cs. \<not> dead c \<and> noDeadBelow c)"

text \<open>
  A node that \<open>Delete\<close> cannot prune (\<open>n.isTerminal || len(n.children) > 1\<close>); such a node
  on the way down becomes the prune anchor.
\<close>

definition anchor :: "'v node \<Rightarrow> bool" where
  "anchor n = (isTerminal n \<or> length (children n) > 1)"

text \<open>
  The trie states a client can produce: the new trie, and the root after any completed
  \<open>Put\<close> or \<open>Delete\<close> on such a state.
\<close>

inductive reachable :: "'v::zero node \<Rightarrow> bool" where
  reachable_new: "reachable NewPointerTrie"
| reachable_Put: "reachable n \<Longrightarrow> Put n (Some k) v = Inr (n', prev, existed) \<Longrightarrow> reachable n'"
| reachable_Delete: "reachable n \<Longrightarrow> Delete n (Some k) = Inr (n', prev, existed) \<Longrightarrow> reachable n'"

section \<open>Bounds\<close>

text \<open>
  Modelled from the spec: the type \<open>Bounds\<close>, its constructors \<open>From(x).To(y)\<close> and
  \<open>From(x).DownTo(y)\<close>, the two sentinel bounds and the methods \<open>IsReverse\<close>, \<open>Clone\<close>,
  \<open>Compare\<close> and \<open>childBounds\<close> are called by \<open>Range\<close>, but their source is not among the
  source files. They follow sections 3, 4.2 and 6 of the specification: a direction and
  two edges in ascending order, each unbounded (\<open>None\<close>) or a key with its inclusive flag.
  \<open>Clone\<close> is the identity on such a value.
\<close>

record Bounds =
  isReverse :: bool
  low :: "(byte list \<times> bool) option"
  high :: "(byte list \<times> bool) option"

text \<open>
  Modelled from the spec: the constructors, which are not among the source files.
  \<open>From(x).To(y)\<close> is forward with \<open>low = (x, inclusive)\<close> and \<open>high = (y, exclusive)\<close>;
  \<open>From(x).DownTo(y)\<close> is reverse with \<open>high = (x, inclusive)\<close> and
  \<open>low = (y, exclusive)\<close>; the sentinels have both edges unbounded.
\<close>

definition FromTo :: "byte list \<Rightarrow> byte list \<Rightarrow> Bounds" where
  "FromTo x y = \<lparr>isReverse = False, low = Some (x, True), high = Some (y, False)\<rparr>"

text \<open>
  Modelled from the spec: \<open>From(x).DownTo(y)\<close>, the reverse bounds \<open>(y, x]\<close> of section 6.
\<close>

definition FromDownTo :: "byte list \<Rightarrow> byte list \<Rightarrow> Bounds" where
  "FromDownTo x y = \<lparr>isReverse = True, low = Some (y, False), high = Some (x, True)\<rparr>"

text \<open>Modelled from the spec: the sentinel bounds forward-all of section 6.\<close>

definition forwardAll :: Bounds where
  "forwardAll = \<lparr>isReverse = False, low = None, high = None\<rparr>"

text \<open>Modelled from the spec: the sentinel bounds reverse-all of section 6.\<close>

definition reverseAll :: Bounds where
  "reverseAll = \<lparr>isReverse = True, low = None, high = None\<rparr>"

text \<open>
  Modelled from the spec: the two edge tests of \<open>Bounds.Compare\<close>, which is not among the
  source files. Section 4.2: an exclusive edge excludes its own key, an unbounded edge is
  always satisfied.
\<close>

definition belowLow :: "Bounds \<Rightarrow> byte list \<Rightarrow> bool" where
  "belowLow b k =
     (case low b of None \<Rightarrow> False | Some (e, inclusive) \<Rightarrow> k < e \<or> (k = e \<and> \<not> inclusive))"

text \<open>Modelled from the spec: the high edge test of \<open>Bounds.Compare\<close>, as for the low edge.\<close>

definition aboveHigh :: "Bounds \<Rightarrow> byte list \<Rightarrow> bool" where
  "aboveHigh b k =
     (case high b of None \<Rightarrow> False | Some (e, inclusive) \<Rightarrow> e < k \<or> (k = e \<and> \<not> inclusive))"

text \<open>
  Modelled from the spec: \<open>Bounds.Compare\<close>, which is not among the source files. Section
  4.2: the key's relation to the edges is taken under ascending order, independent of
  direction (the two edge tests above), and the result lets \<open>Range\<close> abandon the walk once a
  visited key is above the high edge in a forward walk and, symmetrically, once it is
  below the low edge in a reverse walk. \<open>Range\<close> skips on \<open>cmp < 0\<close> and stops only on
  \<open>cmp > 0\<close>, so the sign is in walk order, as the pair of \<open>childBounds\<close> is: \<open>-1\<close> for a key
  the walk has not yet brought into the range (below the low edge going forward, above the
  high edge going in reverse), \<open>1\<close> for a key past the range (above the high edge going
  forward, below the low edge going in reverse), \<open>0\<close> for a key within. A key that fails
  both edges, possible only when the low key exceeds the high key, is reported \<open>-1\<close>.
\<close>

definition Compare :: "Bounds \<Rightarrow> byte list \<Rightarrow> int" where
  "Compare b k =
     (if isReverse b
      then (if aboveHigh b k then -1 else if belowLow b k then 1 else 0)
      else (if belowLow b k then -1 else if aboveHigh b k then 1 else 0))"

text \<open>
  Modelled from the spec: the narrowing of the low edge at an accumulated prefix, a part
  of \<open>Bounds.childBounds\<close>, which is not among the source files (section 4.2,
  \<open>ChildBounds\<close>). The edge key is compared with the prefix byte by byte. While the prefix
  equals the edge key's bytes and the edge key has one more byte, the bound for the next
  byte is that byte. Once the prefix has left the edge key on the side that satisfies the
  edge, the bound is unconstrained (\<open>0x00\<close> for the low edge, \<open>0xFF\<close> for the high edge); once
  it has left it on the side that violates the edge, the edge is resolved and no byte is
  admissible (\<open>None\<close>). A prefix that is the whole edge key, or runs past it, is below
  every key it extends to: the low edge is then satisfied and the high edge violated,
  whatever the edge's flag, which \<open>Compare\<close> applies to the key of full length.
  The section's first case also names a prefix that the edge key merely continues, which
  its second case gives the next byte: the second case is followed. The first case gives
  the unconstrained bound to a prefix that precedes the edge key, for either edge; for
  the low edge such a prefix has left the key on the violating side, which the third case
  declares inadmissible, and the third case is followed. No walk from the root reaches
  such a prefix.
\<close>

fun lowBound :: "byte list \<Rightarrow> byte list \<Rightarrow> byte option" where
  "lowBound [] p = Some 0"
| "lowBound (e # es) [] = Some e"
| "lowBound (e # es) (x # p) =
     (if x < e then None else if e < x then Some 0 else lowBound es p)"

text \<open>
  Modelled from the spec: the narrowing of the high edge, the mirror image of \<open>lowBound\<close>.
\<close>

fun highBound :: "byte list \<Rightarrow> byte list \<Rightarrow> byte option" where
  "highBound [] p = None"
| "highBound (e # es) [] = Some e"
| "highBound (e # es) (x # p) =
     (if x < e then Some 0xFF else if e < x then None else highBound es p)"

text \<open>
  Modelled from the spec: \<open>Bounds.childBounds\<close>, which is not among the source files. It
  combines the low-derived minimum and the high-derived maximum; it is inadmissible when
  an edge is violated or the minimum exceeds the maximum. The specification names the pair (min, max); the callers in the source bind
  it as \<open>start, stop\<close> and walk the children from \<open>start\<close> towards \<open>stop\<close>, ascending for a
  forward and descending for a reverse bounds, so the pair is returned in walk order.
\<close>

definition childBounds :: "Bounds \<Rightarrow> byte list \<Rightarrow> byte \<times> byte \<times> bool" where
  "childBounds b p =
     (case (case low b of None \<Rightarrow> Some 0 | Some (e, inclusive) \<Rightarrow> lowBound e p,
            case high b of None \<Rightarrow> Some 0xFF | Some (e, inclusive) \<Rightarrow> highBound e p) of
        (Some minByte, Some maxByte) \<Rightarrow>
          if maxByte < minByte then (0, 0, False)
          else if isReverse b then (maxByte, minByte, True)
          else (minByte, maxByte, True)
      | _ \<Rightarrow> (0, 0, False))"

section \<open>The traversal engine\<close>

text \<open>
  An \<open>iter.Seq\<close> is consumed by a \<open>yield\<close> callback that returns \<open>false\<close> to stop. The callback
  is a function from the element and the consumer's state to the answer and the new state.
  A \<open>for x := range seq\<close> loop whose body may \<open>return true\<close> is \<open>forEach\<close>: the body returns
  whether the walk is done. The Go recursion has no bound; the model carries the recursion
  depth still available as fuel and returns \<open>None\<close> when it runs out.
\<close>

fun forEach :: "('t \<Rightarrow> 's \<Rightarrow> (bool \<times> 's) option) \<Rightarrow> 't list \<Rightarrow> 's \<Rightarrow> (bool \<times> 's) option" where
  "forEach body [] s = Some (False, s)"
| "forEach body (x # xs) s =
     (case body x s of
        None \<Rightarrow> None
      | Some (True, s') \<Rightarrow> Some (True, s')
      | Some (False, s') \<Rightarrow> forEach body xs s')"

text \<open>
  \<open>preOrderRecurse\<close> of \<open>traversers.go\<close>: yield the path, then recurse into each node of
  \<open>adj(path)\<close> with the path extended; the result is true when some yield returned false.
\<close>

primrec preOrderRecurse ::
  "nat \<Rightarrow> ('t list \<Rightarrow> 't list) \<Rightarrow> ('t list \<Rightarrow> 's \<Rightarrow> bool \<times> 's) \<Rightarrow> 't list \<Rightarrow> 's \<Rightarrow> (bool \<times> 's) option" where
  "preOrderRecurse 0 adj yield path s = None"
| "preOrderRecurse (Suc fuel) adj yield path s =
     (case yield path s of
        (False, s') \<Rightarrow> Some (True, s')
      | (True, s') \<Rightarrow>
          forEach (\<lambda>node. preOrderRecurse fuel adj yield (path @ [node])) (adj path) s')"

definition preOrder ::
  "nat \<Rightarrow> 't \<Rightarrow> ('t list \<Rightarrow> 't list) \<Rightarrow> ('t list \<Rightarrow> 's \<Rightarrow> bool \<times> 's) \<Rightarrow> 's \<Rightarrow> (bool \<times> 's) option" where
  "preOrder fuel root adj yield s = preOrderRecurse fuel adj yield [root] s"

text \<open>
  Modelled from the spec: \<open>postOrder\<close> is called by \<open>Range\<close> but is not among the source
  files. Section 4.3: recurse into each admissible child first, then yield the current
  path; cancellable like the pre-order walk.
\<close>

primrec postOrderRecurse ::
  "nat \<Rightarrow> ('t list \<Rightarrow> 't list) \<Rightarrow> ('t list \<Rightarrow> 's \<Rightarrow> bool \<times> 's) \<Rightarrow> 't list \<Rightarrow> 's \<Rightarrow> (bool \<times> 's) option" where
  "postOrderRecurse 0 adj yield path s = None"
| "postOrderRecurse (Suc fuel) adj yield path s =
     (case forEach (\<lambda>node. postOrderRecurse fuel adj yield (path @ [node])) (adj path) s of
        None \<Rightarrow> None
      | Some (True, s') \<Rightarrow> Some (True, s')
      | Some (False, s') \<Rightarrow>
          (case yield path s' of (False, s'') \<Rightarrow> Some (True, s'') | (True, s'') \<Rightarrow> Some (False, s'')))"

text \<open>Modelled from the spec: the entry point of the post-order walk, as \<open>preOrder\<close>.\<close>

definition postOrder ::
  "nat \<Rightarrow> 't \<Rightarrow> ('t list \<Rightarrow> 't list) \<Rightarrow> ('t list \<Rightarrow> 's \<Rightarrow> bool \<times> 's) \<Rightarrow> 's \<Rightarrow> (bool \<times> 's) option" where
  "postOrder fuel root adj yield s = postOrderRecurse fuel adj yield [root] s"

section \<open>Range\<close>

text \<open>
  \<open>type rangePath[V any] struct { node *node[V]; key []byte }\<close>, as the pair of the node and
  the key bytes on the way to it. The adjacency functions build a child's key with
  \<open>append(path.key, keyByte)\<close>, which may write into the backing array of the parent's key;
  that slot is written again only for the next sibling, after the walk has left the
  subtree of the previous one, and \<open>Range\<close> yields a clone. So every key holds its bytes
  for as long as the walk reads it, and keys are values here.
\<close>

type_synonym 'v rangePath = "'v node \<times> byte list"

text \<open>
  The loop of \<open>forwardChildAdj\<close> over \<open>path.node.children\<close>: skip a child below \<open>start\<close>, end
  at the first child above \<open>stop\<close>, yield the others with the key extended. The sequence
  has no effect of its own, so it is the list of what it yields; \<open>emptySeq\<close> is the empty list.
\<close>

fun forwardChildren :: "byte \<Rightarrow> byte \<Rightarrow> byte list \<Rightarrow> 'v node list \<Rightarrow> 'v rangePath list" where
  "forwardChildren start stop k [] = []"
| "forwardChildren start stop k (child # rest) =
     (if keyByte child < start then forwardChildren start stop k rest
      else if stop < keyByte child then []
      else (child, k @ [keyByte child]) # forwardChildren start stop k rest)"

definition forwardChildAdj :: "Bounds \<Rightarrow> 'v rangePath \<Rightarrow> 'v rangePath list" where
  "forwardChildAdj bounds path =
     (case childBounds bounds (snd path) of
        (start, stop, ok) \<Rightarrow>
          if \<not> ok then [] else forwardChildren start stop (snd path) (children (fst path)))"

text \<open>
  The loop of \<open>reverseChildAdj\<close> runs \<open>i\<close> from \<open>len - 1\<close> down to 0, that is over the reversed
  children: skip a child above \<open>start\<close>, end at the first child below \<open>stop\<close>.
\<close>

fun reverseChildren :: "byte \<Rightarrow> byte \<Rightarrow> byte list \<Rightarrow> 'v node list \<Rightarrow> 'v rangePath list" where
  "reverseChildren start stop k [] = []"
| "reverseChildren start stop k (child # rest) =
     (if start < keyByte child then reverseChildren start stop k rest
      else if keyByte child < stop then []
      else (child, k @ [keyByte child]) # reverseChildren start stop k rest)"

definition reverseChildAdj :: "Bounds \<Rightarrow> 'v rangePath \<Rightarrow> 'v rangePath list" where
  "reverseChildAdj bounds path =
     (case childBounds bounds (snd path) of
        (start, stop, ok) \<Rightarrow>
          if \<not> ok then [] else reverseChildren start stop (snd path) (rev (children (fst path))))"

text \<open>
  The body of \<open>for path := range pathItr\<close> in \<open>Range\<close>, as the callback the traversal calls:
  \<open>continue\<close> answers true, \<open>return\<close> answers false.
\<close>

definition rangeBody ::
  "Bounds \<Rightarrow> (byte list \<Rightarrow> 'v \<Rightarrow> 's \<Rightarrow> bool \<times> 's) \<Rightarrow> 'v rangePath \<Rightarrow> 's \<Rightarrow> bool \<times> 's" where
  "rangeBody bounds yield path s =
     (let cmp = Compare bounds (snd path) in
      if cmp < 0 then (True, s)
      else if 0 < cmp then (False, s)
      else if isTerminal (fst path) then yield (snd path) (val (fst path)) s
      else (True, s))"

text \<open>
  The traversal \<open>Range\<close> selects. The engine of \<open>traversers.go\<close> hands the whole path
  \<open>[]T\<close> to the adjacency function and to the callback; the adjacency functions and the loop
  body of \<open>Range\<close> take one \<open>rangePath\<close>, the place the walk is at, which is the last element
  of that path.
\<close>

definition rangeWalk ::
  "nat \<Rightarrow> 'v node \<Rightarrow> Bounds \<Rightarrow> ('v rangePath \<Rightarrow> 's \<Rightarrow> bool \<times> 's) \<Rightarrow> 's \<Rightarrow> (bool \<times> 's) option" where
  "rangeWalk fuel n bounds body s =
     (if isReverse bounds
      then postOrder fuel (n, []) (\<lambda>path. reverseChildAdj bounds (last path)) (\<lambda>path. body (last path)) s
      else preOrder fuel (n, []) (\<lambda>path. forwardChildAdj bounds (last path)) (\<lambda>path. body (last path)) s)"

text \<open>\<open>Range\<close> run against a consumer \<open>yield\<close> from the consumer state \<open>s\<close>: the final state.\<close>

definition Range ::
  "nat \<Rightarrow> 'v node \<Rightarrow> Bounds \<Rightarrow> (byte list \<Rightarrow> 'v \<Rightarrow> 's \<Rightarrow> bool \<times> 's) \<Rightarrow> 's \<Rightarrow> 's option" where
  "Range fuel n bounds yield s = map_option snd (rangeWalk fuel n bounds (rangeBody bounds yield) s)"

text \<open>
  Modelled from the spec: the test helper \<open>collect\<close>, which the tests call on the result of
  \<open>Range\<close> and which is not among the source files. It is the consumer that never stops and
  appends every pair, so that its final state is the sequence \<open>Range\<close> yields (section 6).
\<close>

definition collect :: "nat \<Rightarrow> 'v node \<Rightarrow> Bounds \<Rightarrow> (byte list \<times> 'v) list option" where
  "collect fuel n bounds = Range fuel n bounds (\<lambda>k v acc. (True, acc @ [(k, v)])) []"

text \<open>
  The places a walk visits, in order: the callback wrapped so that it also logs the
  \<open>rangePath\<close> it is called with.
\<close>

definition logged :: "('p \<Rightarrow> 's \<Rightarrow> bool \<times> 's) \<Rightarrow> 'p \<Rightarrow> 'p list \<times> 's \<Rightarrow> bool \<times> 'p list \<times> 's" where
  "logged body p ls = (case body p (snd ls) of (continue, s') \<Rightarrow> (continue, fst ls @ [p], s'))"

definition visited ::
  "nat \<Rightarrow> 'v node \<Rightarrow> Bounds \<Rightarrow> (byte list \<Rightarrow> 'v \<Rightarrow> 's \<Rightarrow> bool \<times> 's) \<Rightarrow> 's \<Rightarrow> 'v rangePath list option" where
  "visited fuel n bounds yield s =
     map_option (\<lambda>r. fst (snd r)) (rangeWalk fuel n bounds (logged (rangeBody bounds yield)) ([], s))"

section \<open>Notions used to state and prove the properties of Range\<close>

text \<open>The recursion depth a walk of the trie needs.\<close>

fun depth :: "'v node \<Rightarrow> nat" where
  "depth (Node v cs b t) = Suc (fold max (map depth cs) 0)"

text \<open>
  Running a callback over a list of places until it answers false; the result is whether
  it stopped, and the state.
\<close>

fun runYield :: "('p \<Rightarrow> 's \<Rightarrow> bool \<times> 's) \<Rightarrow> 'p list \<Rightarrow> 's \<Rightarrow> bool \<times> 's" where
  "runYield body [] s = (False, s)"
| "runYield body (p # ps) s =
     (case body p s of (False, s') \<Rightarrow> (True, s') | (True, s') \<Rightarrow> runYield body ps s')"

text \<open>
  A next byte that \<open>childBounds\<close> admits at a prefix, and a key suffix admitted byte by
  byte from a prefix on.
\<close>

definition admits :: "Bounds \<Rightarrow> byte list \<Rightarrow> byte \<Rightarrow> bool" where
  "admits b p x =
     (case childBounds b p of
        (start, stop, ok) \<Rightarrow>
          ok \<and> (if isReverse b then stop \<le> x \<and> x \<le> start else start \<le> x \<and> x \<le> stop))"

fun admitted :: "Bounds \<Rightarrow> byte list \<Rightarrow> byte list \<Rightarrow> bool" where
  "admitted b p [] = True"
| "admitted b p (x # r) = (admits b p x \<and> admitted b (p @ [x]) r)"

text \<open>A bounds as the constructors build it: the \<open>From\<close> edge inclusive, the other exclusive.\<close>

definition constructed :: "Bounds \<Rightarrow> bool" where
  "constructed b =
     (if isReverse b
      then (case high b of None \<Rightarrow> True | Some (e, inclusive) \<Rightarrow> inclusive)
           \<and> (case low b of None \<Rightarrow> True | Some (e, inclusive) \<Rightarrow> \<not> inclusive)
      else (case low b of None \<Rightarrow> True | Some (e, inclusive) \<Rightarrow> inclusive)
           \<and> (case high b of None \<Rightarrow> True | Some (e, inclusive) \<Rightarrow> \<not> inclusive))"

text \<open>The adjacency functions yield children of the node, which are smaller than the node.\<close>

lemma forwardChildren_subset: "x \<in> set (forwardChildren start stop k cs) \<Longrightarrow> fst x \<in> set cs"
  by (induction cs) (auto split: if_splits)

lemma reverseChildren_subset: "x \<in> set (reverseChildren start stop k cs) \<Longrightarrow> fst x \<in> set cs"
  by (induction cs) (auto split: if_splits)

lemma forwardChildAdj_subset: "x \<in> set (forwardChildAdj b p) \<Longrightarrow> fst x \<in> set (children (fst p))"
  by (auto simp: forwardChildAdj_def split: prod.splits if_splits dest: forwardChildren_subset)

lemma reverseChildAdj_subset: "x \<in> set (reverseChildAdj b p) \<Longrightarrow> fst x \<in> set (children (fst p))"
  by (auto simp: reverseChildAdj_def split: prod.splits if_splits dest: reverseChildren_subset)

lemma size_child: "c \<in> set (children n) \<Longrightarrow> size c < size n"
  by (cases n) (auto simp: less_Suc_eq_le dest: size_list_estimation'[where f = size and y = "size c"])

text \<open>
  The places the pre-order walk with \<open>forwardChildAdj\<close> and the post-order walk with
  \<open>reverseChildAdj\<close> reach when no callback stops them, in the order of the walk.
\<close>

function visitsF :: "Bounds \<Rightarrow> 'v rangePath \<Rightarrow> 'v rangePath list" where
  "visitsF b p = p # concat (map (visitsF b) (forwardChildAdj b p))"
  by pat_completeness auto
termination
  by (relation "measure (\<lambda>(b, p). size (fst p))") (auto dest!: forwardChildAdj_subset size_child)

function visitsR :: "Bounds \<Rightarrow> 'v rangePath \<Rightarrow> 'v rangePath list" where
  "visitsR b p = concat (map (visitsR b) (reverseChildAdj b p)) @ [p]"
  by pat_completeness auto
termination
  by (relation "measure (\<lambda>(b, p). size (fst p))") (auto dest!: reverseChildAdj_subset size_child)

declare visitsF.simps [simp del] visitsR.simps [simp del]

definition visits :: "Bounds \<Rightarrow> 'v node \<Rightarrow> 'v rangePath list" where
  "visits b n = (if isReverse b then visitsR b (n, []) else visitsF b (n, []))"

text \<open>Every place in the list has a key that extends \<open>k\<close>.\<close>

definition extends :: "byte list \<Rightarrow> 'v rangePath list \<Rightarrow> bool" where
  "extends k ps = (\<forall>p \<in> set ps. \<exists>r. snd p = k @ r)"

text \<open>The node the descent of \<open>Put\<close>, \<open>Get\<close> and \<open>Delete\<close> reaches for a key, if any.\<close>

definition findNode :: "'v node \<Rightarrow> byte list \<Rightarrow> 'v node option" where
  "findNode n r = map_option (nodeAt n) (descend n r)"

text \<open>
  The places below \<open>p\<close> whose key is admitted byte by byte: the existing nodes that
  \<open>childBounds\<close> does not shut out.
\<close>

definition reached :: "Bounds \<Rightarrow> 'v rangePath \<Rightarrow> 'v rangePath set" where
  "reached b p = {(m, snd p @ r) | m r. findNode (fst p) r = Some m \<and> admitted b (snd p) r}"

text \<open>The invariant of section 3: the low edge's key does not exceed the high edge's key.\<close>

definition ordered :: "Bounds \<Rightarrow> bool" where
  "ordered b = (case (low b, high b) of (Some (l, li), Some (h, hi)) \<Rightarrow> l \<le> h | _ \<Rightarrow> True)"

text \<open>
  The pairs of the terminal places whose key compares as within, in the order of the list.
\<close>

definition keep :: "Bounds \<Rightarrow> 'v rangePath list \<Rightarrow> (byte list \<times> 'v) list" where
  "keep b ps = map (\<lambda>p. (snd p, val (fst p))) (filter (\<lambda>p. Compare b (snd p) = 0 \<and> isTerminal (fst p)) ps)"


section \<open>Nil keys\<close>

text \<open>
  C9: \<open>Put\<close>, \<open>Get\<close> and \<open>Delete\<close> called with a nil key panic, whatever the trie and the
  value; called with the empty, non-nil key they return normally.
\<close>

theorem nil_key_panics:
  "Put n None v = Inl NilKey \<and> Get n None = Inl NilKey \<and> Delete n None = Inl NilKey
   \<and> Put n (Some []) v = Inr (put_loop n [] v) \<and> Get n (Some []) = Inr (get_loop n [])
   \<and> Delete n (Some []) = Inr (delete_key n [])"
  by (simp add: Put_def Get_def Delete_def)

section \<open>search and Put\<close>

lemma search_loop_found:
  "search_loop i cs b = (j, True) \<Longrightarrow> i \<le> j \<and> j - i < length cs \<and> keyByte (cs ! (j - i)) = b"
proof (induction cs arbitrary: i)
  case Nil then show ?case by simp
next
  case (Cons c cs)
  show ?case
  proof (cases "b = keyByte c")
    case True with Cons.prems show ?thesis by simp
  next
    case False
    with Cons.prems have *: "search_loop (Suc i) cs b = (j, True)" by (simp split: if_splits)
    from Cons.IH[OF *] show ?thesis by (auto simp: Suc_diff_le nth_Cons')
  qed
qed

lemma search_found:
  "search n b = (j, True) \<Longrightarrow> j < length (children n) \<and> keyByte (children n ! j) = b"
  using search_loop_found[of 0 "children n" b j] by (simp add: search_def)

lemma search_loop_bounds: "search_loop i cs b = (j, f) \<Longrightarrow> i \<le> j \<and> j - i \<le> length cs"
  by (induction cs arbitrary: i) (fastforce split: if_splits)+

lemma search_loop_cong:
  "map keyByte cs' = map keyByte cs \<Longrightarrow> search_loop i cs' b = search_loop i cs b"
proof (induction cs arbitrary: i cs')
  case Nil then show ?case by simp
next
  case (Cons c cs)
  then obtain c' cs2 where "cs' = c' # cs2" by (cases cs') auto
  with Cons show ?case by auto
qed

lemma search_loop_insert:
  "search_loop i cs b = (j, False) \<Longrightarrow> keyByte c = b \<Longrightarrow>
   search_loop i (take (j - i) cs @ c # drop (j - i) cs) b = (j, True)"
proof (induction cs arbitrary: i)
  case Nil then show ?case by simp
next
  case (Cons a cs)
  show ?case
  proof (cases "b < keyByte a")
    case True with Cons.prems show ?thesis by (auto split: if_splits)
  next
    case False
    with Cons.prems have *: "search_loop (Suc i) cs b = (j, False)" and ne: "b \<noteq> keyByte a"
      by (auto split: if_splits)
    from search_loop_bounds[OF *] have "Suc i \<le> j" by simp
    then have "j - i = Suc (j - Suc i)" by simp
    with Cons.IH[OF * Cons.prems(2)] ne False show ?thesis by simp
  qed
qed

lemma keyByte_newChain: "keyByte (newChain (b # ks) v) = b"
  by (cases ks) (simp_all add: newChain_def)

lemma newChain_Cons:
  "ks \<noteq> [] \<Longrightarrow> newChain (b # ks) v = Node 0 [newChain ks v] b False"
  by (cases ks) (simp_all add: newChain_def)

lemma newChain_single: "newChain [b] v = Node v [] b True"
  by (simp add: newChain_def)

lemma get_loop_newChain: "get_loop (newChain (b # ks) v) ks = (v, True)"
proof (induction ks arbitrary: b)
  case Nil show ?case by (simp add: newChain_single)
next
  case (Cons k ks)
  have "search (newChain (b # k # ks) v) k = (0, True)"
    by (simp add: newChain_Cons search_def keyByte_newChain)
  with Cons show ?case by (simp add: newChain_Cons)
qed

lemma keyByte_put_loop: "keyByte (fst (put_loop n ks v)) = keyByte n"
  by (cases ks) (auto split: prod.splits bool.splits)

lemma put_get_loop: "get_loop (fst (put_loop n ks v)) ks = (v, True)"
proof (induction ks arbitrary: n)
  case Nil show ?case by simp
next
  case (Cons b ks)
  obtain index found where s: "search n b = (index, found)" by (cases "search n b")
  show ?case
  proof (cases found)
    case False
    let ?c = "newChain (b # ks) v"
    let ?n' = "Node (val n) (insertAt (children n) index ?c) (keyByte n) (isTerminal n)"
    have "search ?n' b = (index, True)"
      using search_loop_insert[of 0 "children n" b index ?c] s False
      by (simp add: search_def insertAt_def keyByte_newChain)
    moreover have "index \<le> length (children n)"
      using search_loop_bounds[of 0 "children n" b index found] s by (simp add: search_def)
    then have "insertAt (children n) index ?c ! index = ?c"
      by (simp add: insertAt_def nth_append)
    ultimately show ?thesis using s False by (simp add: get_loop_newChain)
  next
    case True
    from search_found[of n b index] s True have lt: "index < length (children n)" by simp
    obtain c prev ex where p: "put_loop (children n ! index) ks v = (c, prev, ex)"
      by (cases "put_loop (children n ! index) ks v")
    let ?n' = "Node (val n) ((children n)[index := c]) (keyByte n) (isTerminal n)"
    have kb: "keyByte c = keyByte (children n ! index)"
      using keyByte_put_loop[of "children n ! index" ks v] p by simp
    have "map keyByte ((children n)[index := c]) = map keyByte (children n)"
      using kb lt by (simp add: map_update list_update_same_conv)
    then have "search ?n' b = (index, True)"
      using s True search_loop_cong[of "(children n)[index := c]" "children n" 0 b]
      by (simp add: search_def)
    moreover have "get_loop c ks = (v, True)" using Cons.IH[of "children n ! index"] p by simp
    ultimately show ?thesis using s True p lt by simp
  qed
qed

text \<open>
  C2: on every trie, for every non-nil key (the empty key included) and every value,
  \<open>Put(k, v)\<close> followed by \<open>Get(k)\<close> on the resulting trie yields \<open>(v, true)\<close>.
\<close>
theorem put_then_get:
  "Put n (Some k) v = Inr (n', prev, existed) \<Longrightarrow> Get n' (Some k) = Inr (v, True)"
  using put_get_loop[of n k v] by (auto simp: Put_def Get_def)

lemma sortedChildren_iff:
  "sortedChildren n = (sorted_wrt (<) (map keyByte (children n)) \<and> (\<forall>c \<in> set (children n). sortedChildren c))"
  by (cases n) simp

lemma noDeadBelow_iff:
  "noDeadBelow n = (\<forall>c \<in> set (children n). \<not> dead c \<and> noDeadBelow c)"
  by (cases n) simp

lemma search_loop_not_found:
  "search_loop i cs b = (j, False) \<Longrightarrow> sorted_wrt (<) (map keyByte cs) \<Longrightarrow>
   (\<forall>c \<in> set (take (j - i) cs). keyByte c < b) \<and> (\<forall>c \<in> set (drop (j - i) cs). b < keyByte c)"
proof (induction cs arbitrary: i)
  case Nil then show ?case by simp
next
  case (Cons a cs)
  show ?case
  proof (cases "b < keyByte a")
    case True
    with Cons.prems have "j = i" by (auto split: if_splits)
    with True Cons.prems(2) show ?thesis by auto
  next
    case False
    with Cons.prems have *: "search_loop (Suc i) cs b = (j, False)" and ne: "b \<noteq> keyByte a"
      by (auto split: if_splits)
    from search_loop_bounds[OF *] have "Suc i \<le> j" by simp
    then have e: "j - i = Suc (j - Suc i)" by simp
    from Cons.prems(2) have "sorted_wrt (<) (map keyByte cs)" by simp
    from Cons.IH[OF * this] ne False show ?thesis unfolding e by auto
  qed
qed

lemma sorted_insertAt:
  assumes "sorted_wrt (<) (map keyByte cs)" "search_loop 0 cs b = (j, False)" "keyByte c = b"
  shows "sorted_wrt (<) (map keyByte (insertAt cs j c))"
proof -
  from search_loop_not_found[OF assms(2) assms(1)]
  have lo: "\<forall>x \<in> set (take j cs). keyByte x < b" and hi: "\<forall>x \<in> set (drop j cs). b < keyByte x"
    by simp_all
  have "map keyByte (take j cs) @ map keyByte (drop j cs) = map keyByte cs"
    by (simp flip: map_append)
  then have "sorted_wrt (<) (map keyByte (take j cs) @ map keyByte (drop j cs))"
    using assms(1) by simp
  then show ?thesis using lo hi assms(3)
    unfolding insertAt_def by (auto simp: sorted_wrt_append)
qed

lemma sortedChildren_newChain: "ks \<noteq> [] \<Longrightarrow> sortedChildren (newChain ks v)"
proof (induction ks)
  case Nil then show ?case by simp
next
  case (Cons b ks)
  then show ?case by (cases "ks = []") (simp_all add: newChain_single newChain_Cons)
qed

lemma alive_newChain: "ks \<noteq> [] \<Longrightarrow> noDeadBelow (newChain ks v) \<and> \<not> dead (newChain ks v)"
proof (induction ks)
  case Nil then show ?case by simp
next
  case (Cons b ks)
  then show ?case by (cases "ks = []") (simp_all add: newChain_single newChain_Cons dead_def)
qed

lemma sorted_update_same_key:
  "i < length cs \<Longrightarrow> keyByte c = keyByte (cs ! i) \<Longrightarrow> map keyByte (cs[i := c]) = map keyByte cs"
  by (simp add: map_update list_update_same_conv)

lemma sortedChildren_put_loop:
  "sortedChildren n \<Longrightarrow> sortedChildren (fst (put_loop n ks v))"
proof (induction ks arbitrary: n)
  case Nil then show ?case by (simp add: sortedChildren_iff[of n])
next
  case (Cons b ks)
  obtain index found where s: "search n b = (index, found)" by (cases "search n b")
  from Cons.prems have sn: "sorted_wrt (<) (map keyByte (children n))"
    and sc: "\<forall>c \<in> set (children n). sortedChildren c" by (simp_all add: sortedChildren_iff[of n])
  show ?case
  proof (cases found)
    case False
    have "sorted_wrt (<) (map keyByte (insertAt (children n) index (newChain (b # ks) v)))"
      using sorted_insertAt[OF sn _ keyByte_newChain] s False by (simp add: search_def)
    moreover have "\<forall>c \<in> set (insertAt (children n) index (newChain (b # ks) v)). sortedChildren c"
      using sc sortedChildren_newChain[of "b # ks" v]
      by (auto simp: insertAt_def dest: in_set_takeD in_set_dropD)
    ultimately show ?thesis using s False by simp
  next
    case True
    from search_found[of n b index] s True have lt: "index < length (children n)" by simp
    obtain c prev ex where p: "put_loop (children n ! index) ks v = (c, prev, ex)"
      by (cases "put_loop (children n ! index) ks v")
    have kb: "keyByte c = keyByte (children n ! index)"
      using keyByte_put_loop[of "children n ! index" ks v] p by simp
    have "sortedChildren c" using Cons.IH[of "children n ! index"] sc lt p by simp
    then have "\<forall>x \<in> set ((children n)[index := c]). sortedChildren x"
      using sc by (auto dest!: set_update_subset_insert[THEN subsetD])
    then show ?thesis using s True p sn sorted_update_same_key[OF lt kb] by simp
  qed
qed

lemma alive_put_loop:
  "noDeadBelow n \<Longrightarrow> noDeadBelow (fst (put_loop n ks v)) \<and> \<not> dead (fst (put_loop n ks v))"
proof (induction ks arbitrary: n)
  case Nil then show ?case by (simp add: noDeadBelow_iff[of n] dead_def)
next
  case (Cons b ks)
  obtain index found where s: "search n b = (index, found)" by (cases "search n b")
  from Cons.prems have sc: "\<forall>c \<in> set (children n). \<not> dead c \<and> noDeadBelow c"
    by (simp add: noDeadBelow_iff[of n])
  show ?case
  proof (cases found)
    case False
    have "\<forall>c \<in> set (insertAt (children n) index (newChain (b # ks) v)). \<not> dead c \<and> noDeadBelow c"
      using sc alive_newChain[of "b # ks" v]
      by (auto simp: insertAt_def dest: in_set_takeD in_set_dropD)
    then show ?thesis using s False by (simp add: dead_def insertAt_def)
  next
    case True
    from search_found[of n b index] s True have lt: "index < length (children n)" by simp
    obtain c prev ex where p: "put_loop (children n ! index) ks v = (c, prev, ex)"
      by (cases "put_loop (children n ! index) ks v")
    have "noDeadBelow c \<and> \<not> dead c" using Cons.IH[of "children n ! index"] sc lt p by simp
    then have "\<forall>x \<in> set ((children n)[index := c]). \<not> dead x \<and> noDeadBelow x"
      using sc by (auto dest!: set_update_subset_insert[THEN subsetD])
    then show ?thesis using s True p lt by (auto simp: dead_def)
  qed
qed

text \<open>\<open>Put\<close> on a key whose path exists writes through the pointer that \<open>descend\<close> returns.\<close>

lemma put_loop_existing:
  "descend n ks = Some p \<Longrightarrow>
   put_loop n ks v =
     (updateAt n p (\<lambda>m. Node v (children m) (keyByte m) True),
      if isTerminal (nodeAt n p) then val (nodeAt n p) else 0,
      isTerminal (nodeAt n p))"
proof (induction ks arbitrary: n p)
  case Nil then show ?case by simp
next
  case (Cons b ks)
  obtain index found where s: "search n b = (index, found)" by (cases "search n b")
  with Cons.prems have f: found by (cases found) simp_all
  with Cons.prems s obtain q where q: "descend (children n ! index) ks = Some q" "p = index # q"
    by auto
  from Cons.IH[OF q(1)] s f q(2) show ?case by simp
qed

section \<open>Delete\<close>

lemma descend_Cons:
  "descend n (b # ks) = Some q \<Longrightarrow>
   \<exists>i q'. q = i # q' \<and> search n b = (i, True) \<and> descend (children n ! i) ks = Some q'"
  by (cases "search n b") (auto split: bool.splits)

lemma descend_Cons_path:
  "descend n ks = Some (i # q) \<Longrightarrow>
   \<exists>b ks'. ks = b # ks' \<and> search n b = (i, True) \<and> descend (children n ! i) ks' = Some q"
  by (cases ks) (auto split: prod.splits bool.splits)

lemma get_loop_descend:
  "get_loop n ks =
     (case descend n ks of None \<Rightarrow> (0, False)
      | Some p \<Rightarrow> if isTerminal (nodeAt n p) then (val (nodeAt n p), True) else (0, False))"
proof (induction ks arbitrary: n)
  case Nil show ?case by simp
next
  case (Cons b ks)
  show ?case
    by (cases "search n b") (auto simp: Cons.IH split: bool.splits option.splits)
qed

lemma delete_loop_descend:
  "delete_loop n ks here prune =
     (case descend n ks of None \<Rightarrow> None
      | Some q \<Rightarrow> Some (here @ q, snd (the (delete_loop n ks here prune))))"
proof (induction ks arbitrary: n here prune)
  case Nil show ?case by simp
next
  case (Cons b ks)
  obtain index found where s: "search n b = (index, found)" by (cases "search n b")
  show ?case
  proof (cases found)
    case False with s show ?thesis by simp
  next
    case True
    let ?pr = "if isTerminal n \<or> length (children n) > 1 then (here, index) else prune"
    from Cons.IH[of "children n ! index" "here @ [index]" ?pr] s True
    show ?thesis by (auto split: option.splits)
  qed
qed

lemma delete_loop_anchor:
  "delete_loop n ks here prune = Some (h, pp, pi) \<Longrightarrow> descend n ks = Some q \<Longrightarrow>
   ((pp, pi) = prune \<and> (ks \<noteq> [] \<longrightarrow> \<not> anchor n))
   \<or> (\<exists>q1 q2. q = q1 @ pi # q2 \<and> pp = here @ q1 \<and> anchor (nodeAt n q1))"
proof (induction ks arbitrary: n here prune q)
  case Nil then show ?case by simp
next
  case (Cons b ks)
  from descend_Cons[OF Cons.prems(2)] obtain i q' where
    q: "q = i # q'" and s: "search n b = (i, True)" and d: "descend (children n ! i) ks = Some q'"
    by blast
  let ?pr = "if isTerminal n \<or> length (children n) > 1 then (here, i) else prune"
  from Cons.prems(1) s have dl: "delete_loop (children n ! i) ks (here @ [i]) ?pr = Some (h, pp, pi)"
    by simp
  from Cons.IH[OF dl d] consider
      (A) "(pp, pi) = ?pr"
    | (B) q1 q2 where "q' = q1 @ pi # q2" "pp = (here @ [i]) @ q1" "anchor (nodeAt (children n ! i) q1)"
    by blast
  then show ?case
  proof cases
    case A
    show ?thesis
    proof (cases "anchor n")
      case True
      with A have "pp = here" "pi = i" by (simp_all add: anchor_def)
      then have "q = [] @ pi # q' \<and> pp = here @ [] \<and> anchor (nodeAt n [])"
        using q True by simp
      then show ?thesis by blast
    next
      case False
      with A show ?thesis by (simp add: anchor_def)
    qed
  next
    case B
    then have "q = (i # q1) @ pi # q2 \<and> pp = here @ (i # q1) \<and> anchor (nodeAt n (i # q1))"
      using q by simp
    then show ?thesis by blast
  qed
qed

lemma delete_loop_root:
  assumes "delete_loop root ks [] ([], 0) = Some (h, pp, pi)" "ks \<noteq> []"
  shows "descend root ks = Some h \<and> (\<exists>q2. h = pp @ pi # q2) \<and> (pp = [] \<or> anchor (nodeAt root pp))"
proof -
  have d: "descend root ks = Some h"
  proof (cases "descend root ks")
    case None
    with delete_loop_descend[of root ks "[]" "([], 0)"] assms(1) show ?thesis by simp
  next
    case (Some q)
    with delete_loop_descend[of root ks "[]" "([], 0)"] assms(1) show ?thesis by simp
  qed
  from delete_loop_anchor[OF assms(1) d] consider
      (A) "pp = []" "pi = 0" "\<not> anchor root"
    | (B) q1 q2 where "h = q1 @ pi # q2" "pp = q1" "anchor (nodeAt root q1)"
    using assms(2) by auto
  then show ?thesis
  proof cases
    case A
    from assms(2) obtain b ks' where ks: "ks = b # ks'" by (cases ks) auto
    from descend_Cons[OF d[unfolded ks]] obtain i q' where
      h: "h = i # q'" and s: "search root b = (i, True)" by blast
    from search_found[OF s] A(3) have "i = 0" by (simp add: anchor_def)
    with h A d show ?thesis by simp
  next
    case B with d show ?thesis by blast
  qed
qed

lemma updateAt_append: "updateAt n (p @ q) f = updateAt n p (\<lambda>m. updateAt m q f)"
  by (induction p arbitrary: n) simp_all

lemma nodeAt_append: "nodeAt n (p @ q) = nodeAt (nodeAt n p) q"
  by (induction p arbitrary: n) simp_all

lemma updateAt_twice: "updateAt (updateAt n p g) p f = updateAt n p (\<lambda>m. f (g m))"
proof (induction p arbitrary: n)
  case Nil show ?case by simp
next
  case (Cons i p)
  show ?case
  proof (cases "i < length (children n)")
    case True with Cons show ?thesis by simp
  next
    case False then show ?thesis by (simp add: list_update_beyond)
  qed
qed

lemma removeChild_updateAt: "removeChild i (updateAt m (i # q) f) = removeChild i m"
  by (simp add: removeChild_def)

lemma prune_after_clear:
  "updateAt (updateAt root (pp @ pi # q2) clearNode) pp (removeChild pi)
   = updateAt root pp (removeChild pi)"
  by (simp only: updateAt_append updateAt_twice removeChild_updateAt)

lemma keyByte_updateAt:
  "(\<forall>m. keyByte (f m) = keyByte m) \<Longrightarrow> keyByte (updateAt n p f) = keyByte n"
  by (cases p) simp_all

lemma sortedChildren_updateAt:
  assumes f: "\<forall>m. sortedChildren m \<longrightarrow> sortedChildren (f m)" and k: "\<forall>m. keyByte (f m) = keyByte m"
  shows "sortedChildren n \<Longrightarrow> sortedChildren (updateAt n p f)"
proof (induction p arbitrary: n)
  case Nil then show ?case using f by simp
next
  case (Cons i p)
  show ?case
  proof (cases "i < length (children n)")
    case False
    then have "updateAt n (i # p) f = n" by (simp add: list_update_beyond)
    with Cons.prems show ?thesis by simp
  next
    case True
    from Cons.prems have sn: "sorted_wrt (<) (map keyByte (children n))"
      and sc: "\<forall>c \<in> set (children n). sortedChildren c" by (simp_all add: sortedChildren_iff[of n])
    let ?c = "updateAt (children n ! i) p f"
    have "sortedChildren ?c" using Cons.IH sc True by simp
    then have "\<forall>x \<in> set ((children n)[i := ?c]). sortedChildren x"
      using sc by (auto dest!: set_update_subset_insert[THEN subsetD])
    moreover have "map keyByte ((children n)[i := ?c]) = map keyByte (children n)"
      using sorted_update_same_key[OF True, of ?c] keyByte_updateAt[OF k] by simp
    ultimately show ?thesis using sn by simp
  qed
qed

lemma dead_updateAt: "p \<noteq> [] \<Longrightarrow> dead (updateAt n p f) = dead n"
  by (cases p) (simp_all add: dead_def)

lemma noDeadBelow_updateAt:
  "noDeadBelow n \<Longrightarrow> noDeadBelow (f (nodeAt n p)) \<Longrightarrow> (p \<noteq> [] \<longrightarrow> \<not> dead (f (nodeAt n p)))
   \<Longrightarrow> noDeadBelow (updateAt n p f)"
proof (induction p arbitrary: n)
  case Nil then show ?case by simp
next
  case (Cons i p)
  show ?case
  proof (cases "i < length (children n)")
    case False
    then have "updateAt n (i # p) f = n" by (simp add: list_update_beyond)
    with Cons.prems show ?thesis by simp
  next
    case True
    from Cons.prems(1) have sc: "\<forall>c \<in> set (children n). \<not> dead c \<and> noDeadBelow c"
      by (simp add: noDeadBelow_iff[of n])
    let ?d = "children n ! i"
    let ?c = "updateAt ?d p f"
    have c0: "\<not> dead ?d \<and> noDeadBelow ?d" using sc True by simp
    have "noDeadBelow ?c"
    proof (rule Cons.IH)
      show "noDeadBelow ?d" using c0 by simp
      show "noDeadBelow (f (nodeAt ?d p))" using Cons.prems(2) by simp
      show "p \<noteq> [] \<longrightarrow> \<not> dead (f (nodeAt ?d p))" using Cons.prems(3) by simp
    qed
    moreover have "\<not> dead ?c"
    proof (cases "p = []")
      case True with Cons.prems(3) show ?thesis by simp
    next
      case False with c0 show ?thesis by (simp add: dead_updateAt)
    qed
    ultimately have "\<forall>x \<in> set ((children n)[i := ?c]). \<not> dead x \<and> noDeadBelow x"
      using sc by (auto dest!: set_update_subset_insert[THEN subsetD])
    then show ?thesis by simp
  qed
qed

lemma descend_prefix:
  "descend n ks = Some (p @ r) \<Longrightarrow>
   descend (nodeAt n p) (drop (length p) ks) = Some r \<and> length p \<le> length ks
   \<and> (sortedChildren n \<longrightarrow> sortedChildren (nodeAt n p))"
proof (induction p arbitrary: n ks)
  case Nil then show ?case by simp
next
  case (Cons i p)
  from Cons.prems have "descend n ks = Some (i # (p @ r))" by simp
  from descend_Cons_path[OF this] obtain b ks' where
    ks: "ks = b # ks'" and s: "search n b = (i, True)" and d: "descend (children n ! i) ks' = Some (p @ r)"
    by blast
  from search_found[OF s] have lt: "i < length (children n)" by simp
  then have "sortedChildren n \<longrightarrow> sortedChildren (children n ! i)"
    by (simp add: sortedChildren_iff[of n])
  with Cons.IH[OF d] ks show ?case by simp
qed

lemma get_loop_updateAt:
  "descend n ks = Some (p @ r) \<Longrightarrow> \<forall>m. keyByte (f m) = keyByte m \<Longrightarrow>
   get_loop (updateAt n p f) ks = get_loop (f (nodeAt n p)) (drop (length p) ks)"
proof (induction p arbitrary: n ks)
  case Nil then show ?case by simp
next
  case (Cons i p)
  from Cons.prems(1) have "descend n ks = Some (i # (p @ r))" by simp
  from descend_Cons_path[OF this] obtain b ks' where
    ks: "ks = b # ks'" and s: "search n b = (i, True)" and d: "descend (children n ! i) ks' = Some (p @ r)"
    by blast
  from search_found[OF s] have lt: "i < length (children n)" by simp
  let ?c = "updateAt (children n ! i) p f"
  have "map keyByte ((children n)[i := ?c]) = map keyByte (children n)"
    using sorted_update_same_key[OF lt, of ?c] keyByte_updateAt[OF Cons.prems(2)] by simp
  then have "search (updateAt n (i # p) f) b = (i, True)"
    using s search_loop_cong[of "(children n)[i := ?c]" "children n" 0 b] by (simp add: search_def)
  then show ?case using ks lt Cons.IH[OF d Cons.prems(2)] by simp
qed

lemma search_loop_found_mem: "search_loop i cs b = (j, True) \<Longrightarrow> b \<in> keyByte ` set cs"
  by (induction cs arbitrary: i) (auto split: if_splits)

lemma search_removeChild:
  assumes "sorted_wrt (<) (map keyByte (children m))" "search m b = (i, True)"
  shows "snd (search (removeChild i m) b) = False"
proof -
  from search_found[OF assms(2)] have lt: "i < length (children m)" and kb: "keyByte (children m ! i) = b"
    by simp_all
  let ?cs = "children m"
  have "map keyByte ?cs = map keyByte (take i ?cs @ ?cs ! i # drop (Suc i) ?cs)"
    using arg_cong[OF id_take_nth_drop[OF lt], of "map keyByte"] .
  then have e: "map keyByte ?cs = map keyByte (take i ?cs) @ b # map keyByte (drop (Suc i) ?cs)"
    using kb by simp
  have "sorted_wrt (<) (map keyByte (take i ?cs) @ b # map keyByte (drop (Suc i) ?cs))"
    using assms(1) unfolding e .
  then have "(\<forall>x \<in> set (take i ?cs). keyByte x < b) \<and> (\<forall>x \<in> set (drop (Suc i) ?cs). b < keyByte x)"
    by (auto simp: sorted_wrt_append)
  then have "b \<notin> keyByte ` set (take i ?cs @ drop (Suc i) ?cs)"
    by auto
  then show ?thesis
    using search_loop_found_mem[of 0 "take i (children m) @ drop (Suc i) (children m)" b]
    by (cases "search (removeChild i m) b") (auto simp: search_def removeChild_def)
qed

lemma descend_length: "descend n ks = Some h \<Longrightarrow> length h = length ks"
  by (induction ks arbitrary: n h) (auto split: prod.splits bool.splits)

lemma noDeadBelow_nodeAt:
  "descend n ks = Some (p @ r) \<Longrightarrow> noDeadBelow n \<Longrightarrow> noDeadBelow (nodeAt n p)"
proof (induction p arbitrary: n ks)
  case Nil then show ?case by simp
next
  case (Cons i p)
  from Cons.prems have "descend n ks = Some (i # (p @ r))" by simp
  from descend_Cons_path[OF this] obtain b ks' where
    s: "search n b = (i, True)" and d: "descend (children n ! i) ks' = Some (p @ r)"
    by blast
  from search_found[OF s] have lt: "i < length (children n)" by simp
  with Cons.prems(2) have "noDeadBelow (children n ! i)" by (simp add: noDeadBelow_iff[of n])
  from Cons.IH[OF d this] show ?case by simp
qed

lemma nodeAt_updateAt:
  "descend n ks = Some (p @ r) \<Longrightarrow> nodeAt (updateAt n p f) p = f (nodeAt n p)"
proof (induction p arbitrary: n ks)
  case Nil then show ?case by simp
next
  case (Cons i p)
  from Cons.prems have "descend n ks = Some (i # (p @ r))" by simp
  from descend_Cons_path[OF this] obtain b ks' where
    s: "search n b = (i, True)" and d: "descend (children n ! i) ks' = Some (p @ r)"
    by blast
  from search_found[OF s] have lt: "i < length (children n)" by simp
  with Cons.IH[OF d] show ?case by simp
qed

lemma delete_key_absent: "descend root ks = None \<Longrightarrow> delete_key root ks = (root, 0, False)"
  using delete_loop_descend[of root ks "[]" "([], 0)"]
  by (cases ks) (simp_all add: delete_key_def)

lemma delete_loop_Some:
  "descend root ks = Some h \<Longrightarrow> \<exists>pp pi. delete_loop root ks [] ([], 0) = Some (h, pp, pi)"
  using delete_loop_descend[of root ks "[]" "([], 0)"]
  by (cases "snd (the (delete_loop root ks [] ([], 0)))") simp

lemma delete_key_nonterminal:
  assumes "descend root ks = Some h" "\<not> isTerminal (nodeAt root h)"
  shows "delete_key root ks = (root, 0, False)"
proof (cases "ks = []")
  case True with assms show ?thesis by (simp add: delete_key_def)
next
  case False
  from delete_loop_Some[OF assms(1)] obtain pp pi where
    "delete_loop root ks [] ([], 0) = Some (h, pp, pi)" by blast
  with False assms(2) show ?thesis by (simp add: delete_key_def)
qed

lemma delete_key_inner:
  assumes "descend root ks = Some h" "isTerminal (nodeAt root h)"
    "ks = [] \<or> children (nodeAt root h) \<noteq> []"
  shows "delete_key root ks = (updateAt root h clearNode, val (nodeAt root h), True)"
proof (cases "ks = []")
  case True with assms show ?thesis by (simp add: delete_key_def)
next
  case False
  from delete_loop_Some[OF assms(1)] obtain pp pi where
    "delete_loop root ks [] ([], 0) = Some (h, pp, pi)" by blast
  with False assms(2,3) show ?thesis by (simp add: delete_key_def)
qed

lemma delete_key_leaf:
  assumes "descend root ks = Some h" "isTerminal (nodeAt root h)"
    "ks \<noteq> []" "children (nodeAt root h) = []"
  shows "\<exists>pp pi q2. h = pp @ pi # q2 \<and> (pp = [] \<or> anchor (nodeAt root pp))
     \<and> delete_key root ks = (updateAt root pp (removeChild pi), val (nodeAt root h), True)"
proof -
  from delete_loop_Some[OF assms(1)] obtain pp pi where
    dl: "delete_loop root ks [] ([], 0) = Some (h, pp, pi)" by blast
  from delete_loop_root[OF dl assms(3)] obtain q2 where
    h: "h = pp @ pi # q2" and a: "pp = [] \<or> anchor (nodeAt root pp)" by blast
  have "delete_key root ks =
      (updateAt (updateAt root h clearNode) pp (removeChild pi), val (nodeAt root h), True)"
    using dl assms(2,3,4) by (simp add: delete_key_def)
  also have "updateAt (updateAt root h clearNode) pp (removeChild pi) = updateAt root pp (removeChild pi)"
    unfolding h by (rule prune_after_clear)
  finally show ?thesis using h a by blast
qed

lemma sorted_remove_nth:
  assumes "sorted_wrt (<) (ys :: byte list)"
  shows "sorted_wrt (<) (take i ys @ drop (Suc i) ys)"
proof -
  have "sorted_wrt (<) (take i ys @ drop i ys)" using assms by simp
  then have "\<forall>x \<in> set (take i ys). \<forall>y \<in> set (drop i ys). x < y"
    unfolding sorted_wrt_append by blast
  moreover have "set (drop (Suc i) ys) \<subseteq> set (drop i ys)"
    by (rule set_drop_subset_set_drop) simp
  ultimately have "\<forall>x \<in> set (take i ys). \<forall>y \<in> set (drop (Suc i) ys). x < y" by blast
  moreover have "sorted_wrt (<) (take i ys)" "sorted_wrt (<) (drop (Suc i) ys)"
    using assms by (simp_all add: sorted_wrt_take sorted_wrt_drop)
  ultimately show ?thesis unfolding sorted_wrt_append by blast
qed

lemma sortedChildren_removeChild: "sortedChildren m \<Longrightarrow> sortedChildren (removeChild i m)"
  using sorted_remove_nth[of "map keyByte (children m)" i]
  by (auto simp: sortedChildren_iff[of m] removeChild_def take_map drop_map
      dest: in_set_takeD in_set_dropD)

lemma sortedChildren_clearNode: "sortedChildren m \<Longrightarrow> sortedChildren (clearNode m)"
  by (simp add: sortedChildren_iff[of m] clearNode_def)

lemma sortedChildren_delete_key:
  assumes "sortedChildren root"
  shows "sortedChildren (fst (delete_key root ks))"
proof -
  have "\<forall>m::'a node. sortedChildren m \<longrightarrow> sortedChildren (clearNode m)"
    by (simp add: sortedChildren_clearNode)
  moreover have "\<forall>m::'a node. keyByte (clearNode m) = keyByte m" by (simp add: clearNode_def)
  ultimately have c: "sortedChildren x \<Longrightarrow> sortedChildren (updateAt x p clearNode)" for p and x :: "'a node"
    by (rule sortedChildren_updateAt)
  have "\<forall>m::'a node. sortedChildren m \<longrightarrow> sortedChildren (removeChild i m)" for i
    by (simp add: sortedChildren_removeChild)
  moreover have "\<forall>m::'a node. keyByte (removeChild i m) = keyByte m" for i
    by (simp add: removeChild_def)
  ultimately have r: "sortedChildren x \<Longrightarrow> sortedChildren (updateAt x p (removeChild i))" for p i and x :: "'a node"
    by (rule sortedChildren_updateAt)
  show ?thesis
    using c[OF assms, of "[]"]
    by (auto simp: delete_key_def Let_def c r assms split: option.splits)
qed

lemma noDeadBelow_clearNode: "noDeadBelow (clearNode m) = noDeadBelow m"
  by (simp add: noDeadBelow_iff[of m] clearNode_def)

lemma noDeadBelow_removeChild: "noDeadBelow m \<Longrightarrow> noDeadBelow (removeChild i m)"
  by (auto simp: noDeadBelow_iff[of m] removeChild_def dest: in_set_takeD in_set_dropD)

lemma anchor_removeChild: "anchor m \<Longrightarrow> \<not> dead (removeChild i m)"
  by (auto simp: anchor_def dead_def removeChild_def)

lemma noDeadBelow_delete_key:
  assumes "noDeadBelow root"
  shows "noDeadBelow (fst (delete_key root ks))"
proof (cases "descend root ks")
  case None then show ?thesis using assms by (simp add: delete_key_absent)
next
  case (Some h)
  let ?m = "nodeAt root h"
  have nm: "noDeadBelow ?m" using noDeadBelow_nodeAt[of root ks h "[]"] Some assms by simp
  show ?thesis
  proof (cases "isTerminal ?m")
    case False
    with Some show ?thesis using assms by (simp add: delete_key_nonterminal)
  next
    case True
    show ?thesis
    proof (cases "ks = [] \<or> children ?m \<noteq> []")
      case inner: True
      have "noDeadBelow (updateAt root h clearNode)"
      proof (rule noDeadBelow_updateAt[OF assms])
        show "noDeadBelow (clearNode ?m)" using nm by (simp add: noDeadBelow_clearNode)
        show "h \<noteq> [] \<longrightarrow> \<not> dead (clearNode ?m)"
          using inner descend_length[OF Some] by (auto simp: dead_def clearNode_def)
      qed
      then show ?thesis by (simp add: delete_key_inner[OF Some True inner])
    next
      case leaf: False
      from delete_key_leaf[OF Some True] leaf obtain pp pi q2 where
        h: "h = pp @ pi # q2" and a: "pp = [] \<or> anchor (nodeAt root pp)"
        and d: "delete_key root ks = (updateAt root pp (removeChild pi), val ?m, True)"
        by blast
      have "noDeadBelow (updateAt root pp (removeChild pi))"
      proof (rule noDeadBelow_updateAt[OF assms])
        have "noDeadBelow (nodeAt root pp)"
          using noDeadBelow_nodeAt[of root ks pp "pi # q2"] Some h assms by simp
        then show "noDeadBelow (removeChild pi (nodeAt root pp))" by (rule noDeadBelow_removeChild)
        show "pp \<noteq> [] \<longrightarrow> \<not> dead (removeChild pi (nodeAt root pp))"
          using a anchor_removeChild by blast
      qed
      then show ?thesis by (simp add: d)
    qed
  qed
qed

lemma get_after_delete_key:
  assumes "sortedChildren root" "descend root ks = Some h" "isTerminal (nodeAt root h)"
  shows "get_loop (fst (delete_key root ks)) ks = (0, False)"
proof (cases "ks = [] \<or> children (nodeAt root h) \<noteq> []")
  case inner: True
  have "get_loop (updateAt root h clearNode) ks = get_loop (clearNode (nodeAt root h)) (drop (length h) ks)"
    by (rule get_loop_updateAt[of root ks h "[]"]) (simp_all add: assms clearNode_def)
  then show ?thesis
    using descend_length[OF assms(2)]
    by (simp add: delete_key_inner[OF assms(2,3) inner] clearNode_def)
next
  case leaf: False
  from delete_key_leaf[OF assms(2,3)] leaf obtain pp pi q2 where
    h: "h = pp @ pi # q2"
    and d: "delete_key root ks = (updateAt root pp (removeChild pi), val (nodeAt root h), True)"
    by blast
  let ?a = "nodeAt root pp"
  from descend_prefix[of root ks pp "pi # q2"] assms(1,2) h
  have da: "descend ?a (drop (length pp) ks) = Some (pi # q2)" and sa: "sortedChildren ?a"
    by simp_all
  from descend_Cons_path[OF da] obtain b ks' where
    dr: "drop (length pp) ks = b # ks'" and s: "search ?a b = (pi, True)" by blast
  have "snd (search (removeChild pi ?a) b) = False"
    using search_removeChild[OF _ s] sa by (simp add: sortedChildren_iff[of ?a])
  then have g: "get_loop (removeChild pi ?a) (b # ks') = (0, False)"
    by (cases "search (removeChild pi ?a) b") simp
  have "get_loop (updateAt root pp (removeChild pi)) ks = get_loop (removeChild pi ?a) (drop (length pp) ks)"
    by (rule get_loop_updateAt[of root ks pp "pi # q2"]) (simp_all add: assms(2) h removeChild_def)
  then have "get_loop (updateAt root pp (removeChild pi)) ks = (0, False)"
    unfolding dr g .
  then show ?thesis by (simp add: d)
qed

lemma delete_key_result:
  "snd (delete_key root ks) =
     (case descend root ks of None \<Rightarrow> (0, False)
      | Some h \<Rightarrow> if isTerminal (nodeAt root h) then (val (nodeAt root h), True) else (0, False))"
proof (cases "descend root ks")
  case None then show ?thesis by (simp add: delete_key_absent)
next
  case (Some h)
  show ?thesis
  proof (cases "isTerminal (nodeAt root h)")
    case False with Some show ?thesis by (simp add: delete_key_nonterminal)
  next
    case True
    show ?thesis
    proof (cases "ks = [] \<or> children (nodeAt root h) \<noteq> []")
      case inner: True
      show ?thesis using Some True by (simp add: delete_key_inner[OF Some True inner])
    next
      case False
      with delete_key_leaf[OF Some True] obtain pp pi where
        "delete_key root ks = (updateAt root pp (removeChild pi), val (nodeAt root h), True)"
        by blast
      with Some True show ?thesis by simp
    qed
  qed
qed

text \<open>
  C3: on a trie whose children are sorted and that has no dead node below the root, for
  every stored key \<open>k\<close> (one that \<open>Get\<close> finds), \<open>Delete(k)\<close> reports the stored value
  with \<open>true\<close>, a following \<open>Get(k)\<close> yields \<open>(zero, false)\<close>, and no dead node other than
  possibly the root is left.
\<close>
theorem delete_then_get:
  assumes "sortedChildren root" "noDeadBelow root"
    and "Get root (Some k) = Inr (v, True)"
    and "Delete root (Some k) = Inr (root', prev, existed)"
  shows "Get root' (Some k) = Inr (0, False) \<and> noDeadBelow root' \<and> existed \<and> prev = v"
proof -
  from assms(3) have g: "get_loop root k = (v, True)" by (simp add: Get_def)
  then obtain h where h: "descend root k = Some h" "isTerminal (nodeAt root h)" "val (nodeAt root h) = v"
    by (auto simp: get_loop_descend split: option.splits if_splits)
  from assms(4) have d: "delete_key root k = (root', prev, existed)" by (simp add: Delete_def)
  have "get_loop root' k = (0, False)" using get_after_delete_key[OF assms(1) h(1,2)] d by simp
  moreover have "noDeadBelow root'" using noDeadBelow_delete_key[OF assms(2), of k] d by simp
  moreover have "existed \<and> prev = v" using delete_key_result[of root k] d h by simp
  ultimately show ?thesis by (simp add: Get_def)
qed

text \<open>
  C10: \<open>Delete(k)\<close> returns \<open>existed = false\<close> exactly when \<open>Get(k)\<close> does not find the key
  (a byte of the path is missing or the final node is not terminal), and then the trie
  it leaves is the trie it was given and the returned value is the zero value.
\<close>
theorem delete_absent_unchanged:
  assumes "Delete n (Some k) = Inr (n', prev, existed)"
  shows "existed = snd (get_loop n k) \<and> (\<not> existed \<longrightarrow> n' = n \<and> prev = 0)"
proof -
  from assms have d: "delete_key n k = (n', prev, existed)" by (simp add: Delete_def)
  have "snd (snd (delete_key n k)) = snd (get_loop n k)"
    unfolding delete_key_result get_loop_descend by (simp split: option.splits)
  then have e: "existed = snd (get_loop n k)" using d by simp
  have "\<not> existed \<Longrightarrow> n' = n \<and> prev = 0"
    using d by (auto simp: delete_key_def Let_def split: if_splits option.splits)
  with e show ?thesis by blast
qed

text \<open>
  C6: when the descent for a non-nil key \<open>k\<close> reaches an existing node, \<open>Put(k, v)\<close> changes
  the trie only by writing \<open>v\<close> and \<open>isTerminal = true\<close> into that node, and returns the
  node's prior value with \<open>true\<close> if it was terminal and the zero value with \<open>false\<close> if it
  was not.
\<close>
theorem put_existing_path:
  assumes "descend n k = Some p"
  shows "Put n (Some k) v =
      Inr (updateAt n p (\<lambda>m. Node v (children m) (keyByte m) True),
           if isTerminal (nodeAt n p) then val (nodeAt n p) else 0,
           isTerminal (nodeAt n p))
     \<and> nodeAt (updateAt n p (\<lambda>m. Node v (children m) (keyByte m) True)) p
         = Node v (children (nodeAt n p)) (keyByte (nodeAt n p)) True"
  using put_loop_existing[OF assms, of v] nodeAt_updateAt[of n k p "[]"] assms
  by (simp add: Put_def)

text \<open>
  C7: in every reachable trie state, that is after every completed \<open>Put\<close> or \<open>Delete\<close>, the
  children of every node are strictly ascending by key byte, so no key byte occurs twice.
\<close>
theorem children_sorted:
  "reachable n \<Longrightarrow> sortedChildren n"
proof (induction rule: reachable.induct)
  case reachable_new show ?case by (simp add: NewPointerTrie_def)
next
  case (reachable_Put n k v n' prev existed)
  then show ?case using sortedChildren_put_loop[of n k v] by (simp add: Put_def)
next
  case (reachable_Delete n k n' prev existed)
  then show ?case using sortedChildren_delete_key[of n k] by (simp add: Delete_def)
qed

text \<open>
  C8: in every reachable trie state, that is after every completed \<open>Put\<close> or \<open>Delete\<close>,
  every leaf other than the root is terminal.
\<close>
theorem leaves_terminal:
  "reachable n \<Longrightarrow> noDeadBelow n"
proof (induction rule: reachable.induct)
  case reachable_new show ?case by (simp add: NewPointerTrie_def)
next
  case (reachable_Put n k v n' prev existed)
  then show ?case using alive_put_loop[of n k v] by (simp add: Put_def)
next
  case (reachable_Delete n k n' prev existed)
  then show ?case using noDeadBelow_delete_key[of n k] by (simp add: Delete_def)
qed

section \<open>Concrete runs of the trie operations\<close>

lemmas trie_eval = Put_def Get_def Delete_def NewPointerTrie_def search_def newChain_def
  insertAt_def delete_key_def clearNode_def removeChild_def dead_def Let_def

theorem put_then_get_witness:
  "Put (NewPointerTrie :: nat node) (Some [0x10, 0x20]) 7
     = Inr (Node 0 [Node 0 [Node 7 [] 0x20 True] 0x10 False] 0 False, 0, False)
   \<and> Get (Node 0 [Node 0 [Node (7::nat) [] 0x20 True] 0x10 False] 0 False) (Some [0x10, 0x20])
     = Inr (7, True)"
proof -
  have h: "Put (NewPointerTrie :: nat node) (Some [0x10, 0x20]) 7
     = Inr (Node 0 [Node 0 [Node 7 [] 0x20 True] 0x10 False] 0 False, 0, False)"
    by (simp add: trie_eval)
  from put_then_get[OF h] h show ?thesis by simp
qed

theorem delete_then_get_witness:
  "sortedChildren (Node 0 [Node 0 [Node 0 [Node (7::nat) [] 0xCC True] 0xBB False] 0xAA False] 0 False)
   \<and> noDeadBelow (Node 0 [Node 0 [Node 0 [Node (7::nat) [] 0xCC True] 0xBB False] 0xAA False] 0 False)
   \<and> Get (Node 0 [Node 0 [Node 0 [Node (7::nat) [] 0xCC True] 0xBB False] 0xAA False] 0 False)
        (Some [0xAA, 0xBB, 0xCC]) = Inr (7, True)
   \<and> Delete (Node 0 [Node 0 [Node 0 [Node (7::nat) [] 0xCC True] 0xBB False] 0xAA False] 0 False)
        (Some [0xAA, 0xBB, 0xCC]) = Inr (Node 0 [] 0 False, 7, True)
   \<and> Get (Node (0::nat) [] 0 False) (Some [0xAA, 0xBB, 0xCC]) = Inr (0, False)
   \<and> noDeadBelow (Node (0::nat) [] 0 False)"
proof -
  let ?t = "Node 0 [Node 0 [Node 0 [Node (7::nat) [] 0xCC True] 0xBB False] 0xAA False] 0 False"
  have h1: "sortedChildren ?t" by simp
  have h2: "noDeadBelow ?t" by (simp add: dead_def)
  have h3: "Get ?t (Some [0xAA, 0xBB, 0xCC]) = Inr (7, True)" by (simp add: trie_eval)
  have h4: "Delete ?t (Some [0xAA, 0xBB, 0xCC]) = Inr (Node 0 [] 0 False, 7, True)"
    by (simp add: trie_eval)
  from delete_then_get[OF h1 h2 h3 h4] h1 h2 h3 h4 show ?thesis by simp
qed

theorem delete_absent_unchanged_witness:
  "Delete (Node 0 [Node (7::nat) [] 0x10 True] 0 False) (Some [0x11])
     = Inr (Node 0 [Node 7 [] 0x10 True] 0 False, 0, False)
   \<and> snd (get_loop (Node 0 [Node (7::nat) [] 0x10 True] 0 False) [0x11]) = False"
proof -
  have h: "Delete (Node 0 [Node (7::nat) [] 0x10 True] 0 False) (Some [0x11])
     = Inr (Node 0 [Node 7 [] 0x10 True] 0 False, 0, False)"
    by (simp add: trie_eval)
  from delete_absent_unchanged[OF h] h show ?thesis by simp
qed

theorem put_existing_path_witness:
  "descend (Node 0 [Node (7::nat) [Node 8 [] 0x20 True] 0x10 True] 0 False) [0x10] = Some [0]
   \<and> Put (Node 0 [Node (7::nat) [Node 8 [] 0x20 True] 0x10 True] 0 False) (Some [0x10]) 9
      = Inr (Node 0 [Node 9 [Node 8 [] 0x20 True] 0x10 True] 0 False, 7, True)"
proof -
  have h: "descend (Node 0 [Node (7::nat) [Node 8 [] 0x20 True] 0x10 True] 0 False) [0x10] = Some [0]"
    by (simp add: search_def)
  from put_existing_path[OF h, of 9] h show ?thesis by simp
qed

theorem children_sorted_witness:
  "reachable (Node 0 [Node (7::nat) [] 0x10 True, Node 8 [] 0x11 True] 0 False)
   \<and> sortedChildren (Node 0 [Node (7::nat) [] 0x10 True, Node 8 [] 0x11 True] 0 False)"
proof -
  have p1: "Put (NewPointerTrie :: nat node) (Some [0x11]) 8
      = Inr (Node 0 [Node 8 [] 0x11 True] 0 False, 0, False)"
    by (simp add: trie_eval)
  have p2: "Put (Node 0 [Node (8::nat) [] 0x11 True] 0 False) (Some [0x10]) 7
      = Inr (Node 0 [Node 7 [] 0x10 True, Node 8 [] 0x11 True] 0 False, 0, False)"
    by (simp add: trie_eval)
  have r: "reachable (Node 0 [Node (7::nat) [] 0x10 True, Node 8 [] 0x11 True] 0 False)"
    by (rule reachable_Put[OF reachable_Put[OF reachable_new p1] p2])
  from children_sorted[OF r] r show ?thesis by simp
qed

theorem leaves_terminal_witness:
  "reachable (Node 0 [Node (8::nat) [] 0x11 True] 0 False)
   \<and> noDeadBelow (Node 0 [Node (8::nat) [] 0x11 True] 0 False)"
proof -
  have p1: "Put (NewPointerTrie :: nat node) (Some [0x10, 0x20]) 7
      = Inr (Node 0 [Node 0 [Node 7 [] 0x20 True] 0x10 False] 0 False, 0, False)"
    by (simp add: trie_eval)
  have p2: "Put (Node 0 [Node 0 [Node (7::nat) [] 0x20 True] 0x10 False] 0 False) (Some [0x11]) 8
      = Inr (Node 0 [Node 0 [Node 7 [] 0x20 True] 0x10 False, Node 8 [] 0x11 True] 0 False, 0, False)"
    by (simp add: trie_eval)
  have d: "Delete (Node 0 [Node 0 [Node (7::nat) [] 0x20 True] 0x10 False, Node 8 [] 0x11 True] 0 False)
        (Some [0x10, 0x20])
      = Inr (Node 0 [Node 8 [] 0x11 True] 0 False, 7, True)"
    by (simp add: trie_eval)
  have r: "reachable (Node 0 [Node (8::nat) [] 0x11 True] 0 False)"
    by (rule reachable_Delete[OF reachable_Put[OF reachable_Put[OF reachable_new p1] p2] d])
  from leaves_terminal[OF r] r show ?thesis by simp
qed

section \<open>The walks of Range as lists of places\<close>

lemma fold_max_ge: "(a::nat) \<le> fold max ys a"
proof (induction ys arbitrary: a)
  case Nil show ?case by simp
next
  case (Cons y ys)
  have "a \<le> max y a" by simp
  also have "\<dots> \<le> fold max ys (max y a)" by (rule Cons.IH)
  finally show ?case by simp
qed

lemma fold_max_mem: "(x::nat) \<in> set xs \<Longrightarrow> x \<le> fold max xs a"
proof (induction xs arbitrary: a)
  case Nil then show ?case by simp
next
  case (Cons y ys)
  show ?case
  proof (cases "x = y")
    case True
    have "y \<le> max y a" by simp
    also have "\<dots> \<le> fold max ys (max y a)" by (rule fold_max_ge)
    finally show ?thesis using True by simp
  next
    case False
    with Cons.prems have "x \<in> set ys" by simp
    from Cons.IH[OF this] show ?thesis by simp
  qed
qed

lemma depth_child: "c \<in> set (children n) \<Longrightarrow> depth c < depth n"
  using fold_max_mem[of "depth c" "map depth (children n)" 0]
  by (cases n) (auto simp: less_Suc_eq_le)

lemma depth_pos: "0 < depth n"
  by (cases n) simp

lemma runYield_append:
  "runYield body (xs @ ys) s =
     (case runYield body xs s of (True, s') \<Rightarrow> (True, s') | (False, s') \<Rightarrow> runYield body ys s')"
  by (induction xs arbitrary: s) (auto split: prod.splits bool.splits)

lemma forEach_visits:
  assumes "\<And>x s. x \<in> set xs \<Longrightarrow> step x s = Some (runYield body (vis x) s)"
  shows "forEach step xs s = Some (runYield body (concat (map vis xs)) s)"
  using assms
proof (induction xs arbitrary: s)
  case Nil show ?case by simp
next
  case (Cons x xs)
  have "step x s = Some (runYield body (vis x) s)" using Cons.prems by simp
  moreover have "forEach step xs s' = Some (runYield body (concat (map vis xs)) s')" for s'
    using Cons.IH Cons.prems by simp
  ultimately show ?case
    by (simp add: runYield_append split: prod.splits bool.splits)
qed

lemma preOrder_visits:
  "depth (fst p) \<le> fuel \<Longrightarrow>
   preOrderRecurse fuel (\<lambda>path. forwardChildAdj b (last path)) (\<lambda>path. body (last path)) (pre @ [p]) s
     = Some (runYield body (visitsF b p) s)"
proof (induction fuel arbitrary: p pre s)
  case 0 then show ?case using depth_pos[of "fst p"] by simp
next
  case (Suc fuel)
  have kids: "forEach (\<lambda>x. preOrderRecurse fuel (\<lambda>path. forwardChildAdj b (last path))
                    (\<lambda>path. body (last path)) ((pre @ [p]) @ [x])) (forwardChildAdj b p) s'
        = Some (runYield body (concat (map (visitsF b) (forwardChildAdj b p))) s')" for s'
  proof (rule forEach_visits)
    fix x s assume "x \<in> set (forwardChildAdj b p)"
    then have "depth (fst x) \<le> fuel"
      using depth_child[OF forwardChildAdj_subset] Suc.prems by fastforce
    then show "preOrderRecurse fuel (\<lambda>path. forwardChildAdj b (last path))
                 (\<lambda>path. body (last path)) ((pre @ [p]) @ [x]) s
               = Some (runYield body (visitsF b x) s)"
      by (rule Suc.IH)
  qed
  show ?case
    by (simp add: visitsF.simps[of b p] kids[simplified] split: prod.splits bool.splits)
qed

lemma postOrder_visits:
  "depth (fst p) \<le> fuel \<Longrightarrow>
   postOrderRecurse fuel (\<lambda>path. reverseChildAdj b (last path)) (\<lambda>path. body (last path)) (pre @ [p]) s
     = Some (runYield body (visitsR b p) s)"
proof (induction fuel arbitrary: p pre s)
  case 0 then show ?case using depth_pos[of "fst p"] by simp
next
  case (Suc fuel)
  have kids: "forEach (\<lambda>x. postOrderRecurse fuel (\<lambda>path. reverseChildAdj b (last path))
                    (\<lambda>path. body (last path)) ((pre @ [p]) @ [x])) (reverseChildAdj b p) s'
        = Some (runYield body (concat (map (visitsR b) (reverseChildAdj b p))) s')" for s'
  proof (rule forEach_visits)
    fix x s assume "x \<in> set (reverseChildAdj b p)"
    then have "depth (fst x) \<le> fuel"
      using depth_child[OF reverseChildAdj_subset] Suc.prems by fastforce
    then show "postOrderRecurse fuel (\<lambda>path. reverseChildAdj b (last path))
                 (\<lambda>path. body (last path)) ((pre @ [p]) @ [x]) s
               = Some (runYield body (visitsR b x) s)"
      by (rule Suc.IH)
  qed
  show ?case
    by (simp add: visitsR.simps[of b p] kids[simplified] runYield_append split: prod.splits bool.splits)
qed


lemma rangeWalk_visits:
  "depth n \<le> fuel \<Longrightarrow> rangeWalk fuel n b body s = Some (runYield body (visits b n) s)"
  using preOrder_visits[of "(n, [])" fuel b body "[]" s] postOrder_visits[of "(n, [])" fuel b body "[]" s]
  by (simp add: rangeWalk_def visits_def preOrder_def postOrder_def)

section \<open>Order of the places visited\<close>

text \<open>Order facts on keys.\<close>

lemma key_less_append: "(k::byte list) < k @ x # r"
  by (induction k) simp_all

lemma key_append_less: "((k::byte list) @ u < k @ w) = (u < w)"
  by (induction k) simp_all

lemma key_append_le: "((k::byte list) @ u \<le> k @ w) = (u \<le> w)"
  by (induction k) simp_all

lemma belowLow_down: "belowLow b k' \<Longrightarrow> k < k' \<Longrightarrow> belowLow b k"
  by (auto simp: belowLow_def split: option.splits)

lemma aboveHigh_up: "aboveHigh b k \<Longrightarrow> k < k' \<Longrightarrow> aboveHigh b k'"
  by (auto simp: aboveHigh_def split: option.splits)

lemma Compare_pos:
  "(0 < Compare b k) =
     (if isReverse b then \<not> aboveHigh b k \<and> belowLow b k else \<not> belowLow b k \<and> aboveHigh b k)"
  by (simp add: Compare_def)

lemma Compare_zero: "(Compare b k = 0) = (\<not> belowLow b k \<and> \<not> aboveHigh b k)"
  by (simp add: Compare_def)

lemma Compare_pos_up: "\<not> isReverse b \<Longrightarrow> 0 < Compare b k \<Longrightarrow> k < k' \<Longrightarrow> 0 < Compare b k'"
  unfolding Compare_pos using belowLow_down aboveHigh_up by auto

lemma Compare_pos_down: "isReverse b \<Longrightarrow> 0 < Compare b k \<Longrightarrow> k' < k \<Longrightarrow> 0 < Compare b k'"
  unfolding Compare_pos using belowLow_down aboveHigh_up by auto

text \<open>On sorted children the adjacency loops select exactly the admitted children.\<close>

lemma forwardChildren_filter:
  "sorted_wrt (<) (map keyByte cs) \<Longrightarrow>
   forwardChildren start stop k cs =
     map (\<lambda>c. (c, k @ [keyByte c])) (filter (\<lambda>c. start \<le> keyByte c \<and> keyByte c \<le> stop) cs)"
proof (induction cs)
  case Nil show ?case by simp
next
  case (Cons c cs)
  show ?case
  proof (cases "stop < keyByte c \<and> \<not> keyByte c < start")
    case True
    with Cons.prems have "\<forall>x \<in> set cs. stop < keyByte x" by auto
    then have "filter (\<lambda>c. start \<le> keyByte c \<and> keyByte c \<le> stop) cs = []"
      by (auto simp: filter_empty_conv)
    with True show ?thesis by auto
  next
    case False
    with Cons show ?thesis by auto
  qed
qed

lemma reverseChildren_filter:
  "sorted_wrt (\<lambda>x y. y < x) (map keyByte cs) \<Longrightarrow>
   reverseChildren start stop k cs =
     map (\<lambda>c. (c, k @ [keyByte c])) (filter (\<lambda>c. stop \<le> keyByte c \<and> keyByte c \<le> start) cs)"
proof (induction cs)
  case Nil show ?case by simp
next
  case (Cons c cs)
  show ?case
  proof (cases "keyByte c < stop \<and> \<not> start < keyByte c")
    case True
    with Cons.prems have "\<forall>x \<in> set cs. keyByte x < stop" by auto
    then have "filter (\<lambda>c. stop \<le> keyByte c \<and> keyByte c \<le> start) cs = []"
      by (auto simp: filter_empty_conv)
    with True show ?thesis by auto
  next
    case False
    with Cons show ?thesis by auto
  qed
qed

lemma forwardChildAdj_filter:
  assumes "sortedChildren n" "\<not> isReverse b"
  shows "forwardChildAdj b (n, k) =
     map (\<lambda>c. (c, k @ [keyByte c])) (filter (\<lambda>c. admits b k (keyByte c)) (children n))"
proof -
  obtain start stop ok where cb: "childBounds b k = (start, stop, ok)"
    by (cases "childBounds b k")
  from assms(1) have s: "sorted_wrt (<) (map keyByte (children n))" by (cases n) simp
  show ?thesis
    using cb assms(2) forwardChildren_filter[OF s, of start stop k]
    by (simp add: forwardChildAdj_def admits_def)
qed

lemma reverseChildAdj_filter:
  assumes "sortedChildren n" "isReverse b"
  shows "reverseChildAdj b (n, k) =
     map (\<lambda>c. (c, k @ [keyByte c])) (filter (\<lambda>c. admits b k (keyByte c)) (rev (children n)))"
proof -
  obtain start stop ok where cb: "childBounds b k = (start, stop, ok)"
    by (cases "childBounds b k")
  from assms(1) have "sorted_wrt (<) (map keyByte (children n))" by (cases n) simp
  then have s: "sorted_wrt (\<lambda>x y. y < x) (map keyByte (rev (children n)))"
    by (simp add: rev_map[symmetric] sorted_wrt_rev)
  show ?thesis
    using cb assms(2) reverseChildren_filter[OF s, of start stop k]
    by (simp add: reverseChildAdj_def admits_def)
qed

text \<open>The keys of the places visited are strictly ordered.\<close>

lemma blocks_ascending:
  assumes "sorted_wrt (<) (map keyByte cs)"
    and "\<And>c. c \<in> set cs \<Longrightarrow> sorted_wrt (<) (map snd (B c)) \<and> extends (k @ [keyByte c]) (B c)"
  shows "sorted_wrt (<) (map snd (concat (map B cs))) \<and> (\<forall>p \<in> set (concat (map B cs)). \<exists>x r. snd p = k @ x # r \<and> x \<in> keyByte ` set cs)"
  using assms
proof (induction cs)
  case Nil show ?case by simp
next
  case (Cons c cs)
  have hd: "sorted_wrt (<) (map snd (B c))" and he: "extends (k @ [keyByte c]) (B c)"
    using Cons.prems(2)[of c] by simp_all
  have tl: "sorted_wrt (<) (map snd (concat (map B cs))) \<and> (\<forall>p \<in> set (concat (map B cs)). \<exists>x r. snd p = k @ x # r \<and> x \<in> keyByte ` set cs)"
    using Cons.IH Cons.prems by simp
  have cross: "snd p < snd q" if "p \<in> set (B c)" "q \<in> set (concat (map B cs))" for p q
  proof -
    from he that(1) obtain r where p: "snd p = k @ keyByte c # r" by (auto simp: extends_def)
    from tl that(2) obtain x r' where q: "snd q = k @ x # r'" "x \<in> keyByte ` set cs" by blast
    from Cons.prems(1) q(2) have "keyByte c < x" by auto
    then show ?thesis by (simp add: p q key_append_less)
  qed
  have cr: "\<forall>x \<in> set (map snd (B c)). \<forall>y \<in> set (map snd (concat (map B cs))). x < y"
  proof (intro ballI)
    fix x y assume "x \<in> set (map snd (B c))" "y \<in> set (map snd (concat (map B cs)))"
    then obtain p q where "p \<in> set (B c)" "x = snd p" "q \<in> set (concat (map B cs))" "y = snd q"
      unfolding set_map by blast
    then show "x < y" using cross by simp
  qed
  have "sorted_wrt (<) (map snd (B c) @ map snd (concat (map B cs)))"
    unfolding sorted_wrt_append using hd conjunct1[OF tl] cr by blast
  then have one: "sorted_wrt (<) (map snd (concat (map B (c # cs))))" by simp
  have "\<exists>x r. snd p = k @ x # r \<and> x \<in> keyByte ` set (c # cs)" if "p \<in> set (concat (map B (c # cs)))" for p
  proof (cases "p \<in> set (B c)")
    case True
    with he obtain r where "snd p = k @ keyByte c # r" by (auto simp: extends_def)
    then show ?thesis by auto
  next
    case False
    with that have "p \<in> set (concat (map B cs))" by auto
    with tl obtain x r where "snd p = k @ x # r" "x \<in> keyByte ` set cs" by blast
    then show ?thesis by auto
  qed
  with one show ?case by blast
qed

lemma blocks_descending:
  assumes "sorted_wrt (\<lambda>x y. y < x) (map keyByte cs)"
    and "\<And>c. c \<in> set cs \<Longrightarrow> sorted_wrt (\<lambda>x y. y < x) (map snd (B c)) \<and> extends (k @ [keyByte c]) (B c)"
  shows "sorted_wrt (\<lambda>x y. y < x) (map snd (concat (map B cs))) \<and> (\<forall>p \<in> set (concat (map B cs)). \<exists>x r. snd p = k @ x # r \<and> x \<in> keyByte ` set cs)"
  using assms
proof (induction cs)
  case Nil show ?case by simp
next
  case (Cons c cs)
  have hd: "sorted_wrt (\<lambda>x y. y < x) (map snd (B c))" and he: "extends (k @ [keyByte c]) (B c)"
    using Cons.prems(2)[of c] by simp_all
  have tl: "sorted_wrt (\<lambda>x y. y < x) (map snd (concat (map B cs))) \<and> (\<forall>p \<in> set (concat (map B cs)). \<exists>x r. snd p = k @ x # r \<and> x \<in> keyByte ` set cs)"
    using Cons.IH Cons.prems by simp
  have cross: "snd q < snd p" if "p \<in> set (B c)" "q \<in> set (concat (map B cs))" for p q
  proof -
    from he that(1) obtain r where p: "snd p = k @ keyByte c # r" by (auto simp: extends_def)
    from tl that(2) obtain x r' where q: "snd q = k @ x # r'" "x \<in> keyByte ` set cs" by blast
    from Cons.prems(1) q(2) have "x < keyByte c" by auto
    then show ?thesis by (simp add: p q key_append_less)
  qed
  have cr: "\<forall>x \<in> set (map snd (B c)). \<forall>y \<in> set (map snd (concat (map B cs))). y < x"
  proof (intro ballI)
    fix x y assume "x \<in> set (map snd (B c))" "y \<in> set (map snd (concat (map B cs)))"
    then obtain p q where "p \<in> set (B c)" "x = snd p" "q \<in> set (concat (map B cs))" "y = snd q"
      unfolding set_map by blast
    then show "y < x" using cross by simp
  qed
  have "sorted_wrt (\<lambda>x y. y < x) (map snd (B c) @ map snd (concat (map B cs)))"
    unfolding sorted_wrt_append using hd conjunct1[OF tl] cr by blast
  then have one: "sorted_wrt (\<lambda>x y. y < x) (map snd (concat (map B (c # cs))))" by simp
  have "\<exists>x r. snd p = k @ x # r \<and> x \<in> keyByte ` set (c # cs)" if "p \<in> set (concat (map B (c # cs)))" for p
  proof (cases "p \<in> set (B c)")
    case True
    with he obtain r where "snd p = k @ keyByte c # r" by (auto simp: extends_def)
    then show ?thesis by auto
  next
    case False
    with that have "p \<in> set (concat (map B cs))" by auto
    with tl obtain x r where "snd p = k @ x # r" "x \<in> keyByte ` set cs" by blast
    then show ?thesis by auto
  qed
  with one show ?case by blast
qed

lemma sortedChildren_child: "sortedChildren n \<Longrightarrow> c \<in> set (children n) \<Longrightarrow> sortedChildren c"
  by (cases n) simp

lemma sortedChildren_keys: "sortedChildren n \<Longrightarrow> sorted_wrt (<) (map keyByte (children n))"
  by (cases n) simp

lemma visitsF_sorted:
  "sortedChildren (fst p) \<Longrightarrow> \<not> isReverse b \<Longrightarrow>
   sorted_wrt (<) (map snd (visitsF b p)) \<and> extends (snd p) (visitsF b p)"
proof (induction b p rule: visitsF.induct)
  case (1 b p)
  obtain n k where p: "p = (n, k)" by (cases p)
  let ?cs = "filter (\<lambda>c. admits b k (keyByte c)) (children n)"
  let ?B = "\<lambda>c. visitsF b (c, k @ [keyByte c])"
  have adj: "forwardChildAdj b (n, k) = map (\<lambda>c. (c, k @ [keyByte c])) ?cs"
    using forwardChildAdj_filter "1.prems" p by simp
  have sf: "sorted_wrt (<) (map keyByte ?cs)"
    using sortedChildren_keys[of n] "1.prems"(1) p by (simp add: sorted_wrt_map sorted_wrt_filter)
  have blocks: "sorted_wrt (<) (map snd (?B c)) \<and> extends (k @ [keyByte c]) (?B c)" if "c \<in> set ?cs" for c
  proof -
    have "(c, k @ [keyByte c]) \<in> set (forwardChildAdj b p)" using that adj p by auto
    moreover have "sortedChildren c" using that "1.prems"(1) p sortedChildren_child[of n c] by simp
    ultimately show ?thesis using "1.IH"[of "(c, k @ [keyByte c])"] "1.prems"(2) by simp
  qed
  from blocks_ascending[OF sf blocks]
  have b: "sorted_wrt (<) (map snd (concat (map ?B ?cs)))"
    and e: "\<forall>q \<in> set (concat (map ?B ?cs)). \<exists>x r. snd q = k @ x # r" by blast+
  have v: "visitsF b p = (n, k) # concat (map ?B ?cs)"
    unfolding p by (subst visitsF.simps) (simp add: adj comp_def)
  have lt: "\<forall>q \<in> set (concat (map ?B ?cs)). k < snd q"
    using e key_less_append by fastforce
  have "sorted_wrt (<) (k # map snd (concat (map ?B ?cs)))"
    using b lt by simp
  then have srt: "sorted_wrt (<) (map snd (visitsF b p))" unfolding v by simp
  have "\<exists>r. snd q = k @ r" if "q \<in> set (visitsF b p)" for q
  proof (cases "q = (n, k)")
    case True then show ?thesis by simp
  next
    case False
    with that have "q \<in> set (concat (map ?B ?cs))" unfolding v by simp
    with e show ?thesis by blast
  qed
  then have "extends (snd p) (visitsF b p)" unfolding extends_def p by simp
  with srt show ?case by blast
qed

lemma visitsR_sorted:
  "sortedChildren (fst p) \<Longrightarrow> isReverse b \<Longrightarrow>
   sorted_wrt (\<lambda>x y. y < x) (map snd (visitsR b p)) \<and> extends (snd p) (visitsR b p)"
proof (induction b p rule: visitsR.induct)
  case (1 b p)
  obtain n k where p: "p = (n, k)" by (cases p)
  let ?cs = "filter (\<lambda>c. admits b k (keyByte c)) (rev (children n))"
  let ?B = "\<lambda>c. visitsR b (c, k @ [keyByte c])"
  have adj: "reverseChildAdj b (n, k) = map (\<lambda>c. (c, k @ [keyByte c])) ?cs"
    using reverseChildAdj_filter "1.prems" p by simp
  have "sorted_wrt (\<lambda>x y. y < x) (map keyByte (rev (children n)))"
    using sortedChildren_keys[of n] "1.prems"(1) p by (simp add: rev_map[symmetric] sorted_wrt_rev)
  then have sf: "sorted_wrt (\<lambda>x y. y < x) (map keyByte ?cs)"
    by (simp add: sorted_wrt_map sorted_wrt_filter)
  have blocks: "sorted_wrt (\<lambda>x y. y < x) (map snd (?B c)) \<and> extends (k @ [keyByte c]) (?B c)" if "c \<in> set ?cs" for c
  proof -
    have "(c, k @ [keyByte c]) \<in> set (reverseChildAdj b p)" using that adj p by auto
    moreover have "sortedChildren c" using that "1.prems"(1) p sortedChildren_child[of n c] by simp
    ultimately show ?thesis using "1.IH"[of "(c, k @ [keyByte c])"] "1.prems"(2) by simp
  qed
  from blocks_descending[OF sf blocks]
  have b: "sorted_wrt (\<lambda>x y. y < x) (map snd (concat (map ?B ?cs)))"
    and e: "\<forall>q \<in> set (concat (map ?B ?cs)). \<exists>x r. snd q = k @ x # r" by blast+
  have v: "visitsR b p = concat (map ?B ?cs) @ [(n, k)]"
    unfolding p by (subst visitsR.simps) (simp add: adj comp_def)
  have lt: "\<forall>q \<in> set (concat (map ?B ?cs)). k < snd q"
    using e key_less_append by fastforce
  have "sorted_wrt (\<lambda>x y. y < x) (map snd (concat (map ?B ?cs)) @ [k])"
    unfolding sorted_wrt_append using b lt by simp
  then have srt: "sorted_wrt (\<lambda>x y. y < x) (map snd (visitsR b p))" unfolding v by simp
  have "\<exists>r. snd q = k @ r" if "q \<in> set (visitsR b p)" for q
  proof (cases "q = (n, k)")
    case True then show ?thesis by simp
  next
    case False
    with that have "q \<in> set (concat (map ?B ?cs))" unfolding v by simp
    with e show ?thesis by blast
  qed
  then have "extends (snd p) (visitsR b p)" unfolding extends_def p by simp
  with srt show ?case by blast
qed

section \<open>Soundness of the narrowing and the set of places visited\<close>

text \<open>The narrowing is sound: it never shuts out a key within the bounds.\<close>

lemma byte_le_max: "(x::byte) \<le> 0xFF"
proof -
  have "(0xFF::byte) = - 1" by simp
  then show ?thesis by (simp only: word_order.extremum)
qed

lemma lowBound_sound: "e \<le> p @ x # r \<Longrightarrow> \<exists>m. lowBound e p = Some m \<and> m \<le> x"
  by (induction e p rule: lowBound.induct) (auto split: if_splits)

lemma highBound_sound: "p @ x # r \<le> e \<Longrightarrow> \<exists>m. highBound e p = Some m \<and> x \<le> m"
  by (induction e p rule: highBound.induct) (auto split: if_splits simp: byte_le_max)

lemma admits_sound:
  assumes "\<not> belowLow b (p @ x # r)" "\<not> aboveHigh b (p @ x # r)"
  shows "admits b p x"
proof -
  have "\<exists>m. (case low b of None \<Rightarrow> Some 0 | Some (e, inclusive) \<Rightarrow> lowBound e p) = Some m \<and> m \<le> x"
  proof (cases "low b")
    case None then show ?thesis by simp
  next
    case (Some ei)
    obtain e i where ei: "ei = (e, i)" by (cases ei)
    from assms(1) Some ei have "e \<le> p @ x # r" by (auto simp: belowLow_def not_less)
    from lowBound_sound[OF this] Some ei show ?thesis by simp
  qed
  then obtain mn where mn: "(case low b of None \<Rightarrow> Some 0 | Some (e, inclusive) \<Rightarrow> lowBound e p) = Some mn" "mn \<le> x"
    by blast
  have "\<exists>m. (case high b of None \<Rightarrow> Some 0xFF | Some (e, inclusive) \<Rightarrow> highBound e p) = Some m \<and> x \<le> m"
  proof (cases "high b")
    case None then show ?thesis by (simp add: byte_le_max)
  next
    case (Some ei)
    obtain e i where ei: "ei = (e, i)" by (cases ei)
    from assms(2) Some ei have "p @ x # r \<le> e" by (auto simp: aboveHigh_def not_less)
    from highBound_sound[OF this] Some ei show ?thesis by simp
  qed
  then obtain mx where mx: "(case high b of None \<Rightarrow> Some 0xFF | Some (e, inclusive) \<Rightarrow> highBound e p) = Some mx" "x \<le> mx"
    by blast
  from mn(2) mx(2) have "\<not> mx < mn" by simp
  then show ?thesis using mn mx by (simp add: admits_def childBounds_def)
qed

lemma admitted_sound:
  "\<not> belowLow b (p @ r) \<Longrightarrow> \<not> aboveHigh b (p @ r) \<Longrightarrow> admitted b p r"
proof (induction r arbitrary: p)
  case Nil show ?case by simp
next
  case (Cons x r)
  from Cons.prems have "admits b p x" by (rule admits_sound)
  moreover have "admitted b (p @ [x]) r" using Cons.IH[of "p @ [x]"] Cons.prems by simp
  ultimately show ?case by simp
qed

text \<open>The places a walk visits are the existing nodes whose key is admitted.\<close>

lemma search_loop_complete:
  "sorted_wrt (<) (map keyByte cs) \<Longrightarrow> c \<in> set cs \<Longrightarrow>
   \<exists>j. search_loop i cs (keyByte c) = (j, True) \<and> i \<le> j \<and> cs ! (j - i) = c"
proof (induction cs arbitrary: i)
  case Nil then show ?case by simp
next
  case (Cons a cs)
  show ?case
  proof (cases "c = a")
    case True then show ?thesis by simp
  next
    case False
    with Cons.prems have m: "c \<in> set cs" and lt: "keyByte a < keyByte c" by auto
    from Cons.prems(1) have "sorted_wrt (<) (map keyByte cs)" by simp
    from Cons.IH[OF this m, of "Suc i"] obtain j where
      j: "search_loop (Suc i) cs (keyByte c) = (j, True)" "Suc i \<le> j" "cs ! (j - Suc i) = c" by blast
    then have "(a # cs) ! (j - i) = c" by (simp add: nth_Cons' Suc_le_eq)
    with j lt show ?thesis by auto
  qed
qed

lemma findNode_Nil: "findNode n [] = Some n"
  by (simp add: findNode_def)

lemma findNode_Cons:
  assumes "sortedChildren n"
  shows "(findNode n (x # r) = Some m) = (\<exists>c \<in> set (children n). keyByte c = x \<and> findNode c r = Some m)"
proof
  assume "findNode n (x # r) = Some m"
  then obtain p where p: "descend n (x # r) = Some p" "m = nodeAt n p" by (auto simp: findNode_def)
  obtain i found where s: "search n x = (i, found)" by (cases "search n x")
  with p(1) have f: found by (cases found) simp_all
  from p(1) s f obtain p' where p': "descend (children n ! i) r = Some p'" "p = i # p'" by auto
  have lt: "i < length (children n)" and kb: "keyByte (children n ! i) = x"
    using search_loop_found[of 0 "children n" x i] s f by (simp_all add: search_def)
  from p' p(2) have "findNode (children n ! i) r = Some m" by (simp add: findNode_def)
  with lt kb show "\<exists>c \<in> set (children n). keyByte c = x \<and> findNode c r = Some m"
    using nth_mem by blast
next
  assume "\<exists>c \<in> set (children n). keyByte c = x \<and> findNode c r = Some m"
  then obtain c where c: "c \<in> set (children n)" "keyByte c = x" "findNode c r = Some m" by blast
  from search_loop_complete[OF sortedChildren_keys[OF assms] c(1), of 0] c(2)
  obtain j where "search n x = (j, True)" "children n ! j = c" by (auto simp: search_def)
  with c(3) show "findNode n (x # r) = Some m" by (auto simp: findNode_def)
qed

lemma get_loop_findNode:
  "(get_loop n k = (v, True)) = (\<exists>m. findNode n k = Some m \<and> isTerminal m \<and> val m = v)"
proof (induction k arbitrary: n)
  case Nil show ?case by (auto simp: findNode_def)
next
  case (Cons x k)
  show ?case
    by (cases "search n x") (auto simp: Cons.IH findNode_def split: bool.splits)
qed

lemma reached_step:
  assumes "sortedChildren n"
  shows "reached b (n, k) =
     insert (n, k) (\<Union>c \<in> {c \<in> set (children n). admits b k (keyByte c)}. reached b (c, k @ [keyByte c]))"
proof (intro set_eqI iffI)
  fix q assume "q \<in> reached b (n, k)"
  then obtain m r where q: "q = (m, k @ r)" "findNode n r = Some m" "admitted b k r"
    by (auto simp: reached_def)
  show "q \<in> insert (n, k) (\<Union>c \<in> {c \<in> set (children n). admits b k (keyByte c)}. reached b (c, k @ [keyByte c]))"
  proof (cases r)
    case Nil with q show ?thesis by (simp add: findNode_Nil)
  next
    case (Cons x r')
    with q(2) findNode_Cons[OF assms] obtain c where
      c: "c \<in> set (children n)" "keyByte c = x" "findNode c r' = Some m" by blast
    from q(3) Cons have a: "admits b k x" "admitted b (k @ [x]) r'" by simp_all
    have "q \<in> reached b (c, k @ [keyByte c])"
      using q(1) Cons c a by (auto simp: reached_def)
    with c a show ?thesis by auto
  qed
next
  fix q assume "q \<in> insert (n, k) (\<Union>c \<in> {c \<in> set (children n). admits b k (keyByte c)}. reached b (c, k @ [keyByte c]))"
  then consider "q = (n, k)"
    | c where "c \<in> set (children n)" "admits b k (keyByte c)" "q \<in> reached b (c, k @ [keyByte c])"
    by auto
  then show "q \<in> reached b (n, k)"
  proof cases
    case 1
    have "findNode n [] = Some n \<and> admitted b k []" by (simp add: findNode_Nil)
    then show ?thesis unfolding reached_def 1 by force
  next
    case 2
    then obtain m r where q: "q = (m, (k @ [keyByte c]) @ r)" "findNode c r = Some m"
      "admitted b (k @ [keyByte c]) r" by (auto simp: reached_def)
    have "findNode n (keyByte c # r) = Some m" using findNode_Cons[OF assms] 2(1) q(2) by blast
    moreover have "admitted b k (keyByte c # r)" using 2(2) q(3) by simp
    ultimately show ?thesis unfolding reached_def using q(1) by force
  qed
qed

lemma set_visitsF:
  "sortedChildren (fst p) \<Longrightarrow> \<not> isReverse b \<Longrightarrow> set (visitsF b p) = reached b p"
proof (induction b p rule: visitsF.induct)
  case (1 b p)
  obtain n k where p: "p = (n, k)" by (cases p)
  let ?cs = "filter (\<lambda>c. admits b k (keyByte c)) (children n)"
  have adj: "forwardChildAdj b (n, k) = map (\<lambda>c. (c, k @ [keyByte c])) ?cs"
    using forwardChildAdj_filter "1.prems" p by simp
  have ih: "set (visitsF b (c, k @ [keyByte c])) = reached b (c, k @ [keyByte c])" if "c \<in> set ?cs" for c
  proof -
    have "(c, k @ [keyByte c]) \<in> set (forwardChildAdj b p)" using that adj p by auto
    moreover have "sortedChildren c" using that "1.prems"(1) p sortedChildren_child[of n c] by simp
    ultimately show ?thesis using "1.IH"[of "(c, k @ [keyByte c])"] "1.prems"(2) by simp
  qed
  have "set (visitsF b p) = insert (n, k) (\<Union>c \<in> set ?cs. set (visitsF b (c, k @ [keyByte c])))"
    unfolding p by (subst visitsF.simps) (simp add: adj comp_def)
  also have "\<dots> = insert (n, k) (\<Union>c \<in> set ?cs. reached b (c, k @ [keyByte c]))"
    using ih by simp
  also have "\<dots> = reached b (n, k)"
    using reached_step[of n b k] "1.prems"(1) p by simp
  finally show ?case by (simp add: p)
qed

lemma set_visitsR:
  "sortedChildren (fst p) \<Longrightarrow> isReverse b \<Longrightarrow> set (visitsR b p) = reached b p"
proof (induction b p rule: visitsR.induct)
  case (1 b p)
  obtain n k where p: "p = (n, k)" by (cases p)
  let ?cs = "filter (\<lambda>c. admits b k (keyByte c)) (rev (children n))"
  have adj: "reverseChildAdj b (n, k) = map (\<lambda>c. (c, k @ [keyByte c])) ?cs"
    using reverseChildAdj_filter "1.prems" p by simp
  have ih: "set (visitsR b (c, k @ [keyByte c])) = reached b (c, k @ [keyByte c])" if "c \<in> set ?cs" for c
  proof -
    have "(c, k @ [keyByte c]) \<in> set (reverseChildAdj b p)" using that adj p by auto
    moreover have "sortedChildren c" using that "1.prems"(1) p sortedChildren_child[of n c] by simp
    ultimately show ?thesis using "1.IH"[of "(c, k @ [keyByte c])"] "1.prems"(2) by simp
  qed
  have "set (visitsR b p) = insert (n, k) (\<Union>c \<in> set ?cs. set (visitsR b (c, k @ [keyByte c])))"
    unfolding p by (subst visitsR.simps) (simp add: adj comp_def)
  also have "\<dots> = insert (n, k) (\<Union>c \<in> set ?cs. reached b (c, k @ [keyByte c]))"
    using ih by simp
  also have "\<dots> = reached b (n, k)"
    using reached_step[of n b k] "1.prems"(1) p by simp
  finally show ?case by (simp add: p)
qed

section \<open>The sequence Range yields\<close>

lemma runYield_collect_sorted:
  assumes past: "\<And>k k'. 0 < Compare b k \<Longrightarrow> R k k' \<Longrightarrow> 0 < Compare b k'"
  shows "sorted_wrt R (map snd ps) \<Longrightarrow>
   snd (runYield (rangeBody b (\<lambda>k v acc. (True, acc @ [(k, v)]))) ps acc) = acc @ keep b ps"
proof (induction ps arbitrary: acc)
  case Nil show ?case by (simp add: keep_def)
next
  case (Cons p ps)
  from Cons.prems have s: "sorted_wrt R (map snd ps)" and lt: "\<forall>q \<in> set ps. R (snd p) (snd q)"
    by simp_all
  show ?case
  proof (cases "0 < Compare b (snd p)")
    case True
    have "\<forall>q \<in> set ps. Compare b (snd q) \<noteq> 0"
      using past[OF True] lt by fastforce
    then have "keep b ps = []" by (simp add: keep_def filter_empty_conv)
    moreover have "keep b (p # ps) = keep b ps" using True by (simp add: keep_def)
    ultimately show ?thesis using True by (simp add: rangeBody_def Let_def)
  next
    case False
    then show ?thesis using Cons.IH[OF s]
      by (auto simp: rangeBody_def Let_def keep_def)
  qed
qed

lemma keep_keys_sorted:
  "sorted_wrt R (map snd ps) \<Longrightarrow> sorted_wrt R (map fst (keep b ps))"
proof -
  assume "sorted_wrt R (map snd ps)"
  then have "sorted_wrt (\<lambda>p q. R (snd p) (snd q)) ps" by (simp add: sorted_wrt_map)
  then have "sorted_wrt (\<lambda>p q. R (snd p) (snd q)) (filter (\<lambda>p. Compare b (snd p) = 0 \<and> isTerminal (fst p)) ps)"
    by (rule sorted_wrt_filter)
  then show ?thesis by (simp add: keep_def sorted_wrt_map comp_def)
qed

lemma set_keep_reached:
  assumes "set ps = reached b (root, [])"
  shows "set (keep b ps) = {(k, v). Get root (Some k) = Inr (v, True) \<and> \<not> belowLow b k \<and> \<not> aboveHigh b k}"
proof (intro set_eqI iffI)
  fix kv assume "kv \<in> set (keep b ps)"
  then obtain p where p: "p \<in> set ps" "Compare b (snd p) = 0" "isTerminal (fst p)" "kv = (snd p, val (fst p))"
    by (auto simp: keep_def)
  from p(1) assms obtain m r where mr: "p = (m, r)" "findNode root r = Some m"
    by (auto simp: reached_def)
  have "get_loop root r = (val m, True)" using get_loop_findNode[of root r "val m"] mr p(3) by simp
  then show "kv \<in> {(k, v). Get root (Some k) = Inr (v, True) \<and> \<not> belowLow b k \<and> \<not> aboveHigh b k}"
    using p(2,4) mr(1) by (simp add: Get_def Compare_zero)
next
  fix kv assume "kv \<in> {(k, v). Get root (Some k) = Inr (v, True) \<and> \<not> belowLow b k \<and> \<not> aboveHigh b k}"
  then obtain k v where kv: "kv = (k, v)" "get_loop root k = (v, True)" "\<not> belowLow b k" "\<not> aboveHigh b k"
    by (auto simp: Get_def)
  from kv(2) get_loop_findNode[of root k v] obtain m where
    m: "findNode root k = Some m" "isTerminal m" "val m = v" by blast
  have "admitted b [] k" using admitted_sound[of b "[]" k] kv(3,4) by simp
  with m(1) have "(m, k) \<in> set ps" unfolding assms reached_def by force
  then have "(snd (m, k), val (fst (m, k))) \<in> set (keep b ps)"
    unfolding keep_def using m(2) kv(3,4) by (force simp: Compare_zero)
  then show "kv \<in> set (keep b ps)" using kv(1) m(3) by simp
qed

lemma collect_visits:
  "depth root \<le> fuel \<Longrightarrow>
   collect fuel root b = Some (snd (runYield (rangeBody b (\<lambda>k v acc. (True, acc @ [(k, v)]))) (visits b root) []))"
  by (simp add: collect_def Range_def rangeWalk_visits)

text \<open>
  C1: on a trie with sorted children, for every bounds the constructors can build and with
  enough recursion depth, the sequence \<open>Range\<close> yields is strictly ascending by key for a
  forward bounds and strictly descending for a reverse bounds, and its pairs are exactly
  the stored keys, with their values, that are neither below the low edge nor above the
  high edge (an exclusive edge shuts out its own key, an unbounded edge nothing).
\<close>
theorem range_ordered:
  assumes "sortedChildren root" "constructed b" "depth root \<le> fuel"
  shows "\<exists>ys. collect fuel root b = Some ys
    \<and> (if isReverse b then sorted_wrt (\<lambda>x y. y < x) (map fst ys) else sorted_wrt (<) (map fst ys))
    \<and> set ys = {(k, v). Get root (Some k) = Inr (v, True) \<and> \<not> belowLow b k \<and> \<not> aboveHigh b k}"
proof (cases "isReverse b")
  case False
  let ?ps = "visitsF b (root, [])"
  have srt: "sorted_wrt (<) (map snd ?ps)" using visitsF_sorted[of "(root, [])" b] assms(1) False by simp
  have st: "set ?ps = reached b (root, [])" using set_visitsF[of "(root, [])" b] assms(1) False by simp
  have "collect fuel root b = Some (keep b ?ps)"
    using collect_visits[OF assms(3), of b]
      runYield_collect_sorted[of b "(<)" ?ps "[]", OF Compare_pos_up[OF False] srt] False
    by (simp add: visits_def)
  moreover have "sorted_wrt (<) (map fst (keep b ?ps))" using srt by (rule keep_keys_sorted)
  ultimately show ?thesis using set_keep_reached[OF st] False by simp
next
  case True
  let ?ps = "visitsR b (root, [])"
  have srt: "sorted_wrt (\<lambda>x y. y < x) (map snd ?ps)"
    using visitsR_sorted[of "(root, [])" b] assms(1) True by simp
  have st: "set ?ps = reached b (root, [])" using set_visitsR[of "(root, [])" b] assms(1) True by simp
  have "collect fuel root b = Some (keep b ?ps)"
    using collect_visits[OF assms(3), of b]
      runYield_collect_sorted[of b "\<lambda>x y. y < x" ?ps "[]", OF Compare_pos_down[OF True] srt] True
    by (simp add: visits_def)
  moreover have "sorted_wrt (\<lambda>x y. y < x) (map fst (keep b ?ps))" using srt by (rule keep_keys_sorted)
  ultimately show ?thesis using set_keep_reached[OF st] True by simp
qed

text \<open>The log of a walk is an initial part of the places, cut where the callback stopped.\<close>

lemma runYield_logged:
  "\<exists>ws zs d s'. runYield (logged body) ps (l, s) = (d, l @ ws, s') \<and> ps = ws @ zs
     \<and> (\<forall>p \<in> set (butlast ws). \<exists>s0. fst (body p s0))"
proof (induction ps arbitrary: l s)
  case Nil
  show ?case
    by (rule exI[where x = "[]"], rule exI[where x = "[]"], rule exI[where x = False],
        rule exI[where x = s]) simp
next
  case (Cons p ps)
  obtain c s1 where b: "body p s = (c, s1)" by (cases "body p s")
  show ?case
  proof (cases c)
    case False
    with b have "runYield (logged body) (p # ps) (l, s) = (True, l @ [p], s1)"
      by (simp add: logged_def)
    then show ?thesis
      by (intro exI[where x = "[p]"] exI[where x = ps] exI[where x = True] exI[where x = s1]) simp
  next
    case True
    with b have r: "runYield (logged body) (p # ps) (l, s) = runYield (logged body) ps (l @ [p], s1)"
      by (simp add: logged_def)
    from Cons.IH[of "l @ [p]" s1] obtain ws zs d s' where
      ih: "runYield (logged body) ps (l @ [p], s1) = (d, (l @ [p]) @ ws, s')" "ps = ws @ zs"
      "\<forall>q \<in> set (butlast ws). \<exists>s0. fst (body q s0)" by blast
    have "fst (body p s)" using b True by simp
    then have "\<exists>s0. fst (body p s0)" ..
    then have bl: "\<forall>q \<in> set (butlast (p # ws)). \<exists>s0. fst (body q s0)"
      using ih(3) by (cases ws) simp_all
    show ?thesis
      using r ih(1,2) bl
      by (intro exI[where x = "p # ws"] exI[where x = zs] exI[where x = d] exI[where x = s']) simp
  qed
qed

lemma rangeBody_continues: "fst (rangeBody b yield p s0) \<Longrightarrow> \<not> 0 < Compare b (snd p)"
  by (auto simp: rangeBody_def Let_def split: if_splits)

lemma above_not_below:
  assumes "\<not> isReverse b" "constructed b" "ordered b" "aboveHigh b k"
  shows "\<not> belowLow b k"
proof (cases "low b")
  case None then show ?thesis by (simp add: belowLow_def)
next
  case (Some li)
  obtain l i where li: "li = (l, i)" by (cases li)
  from assms(1,2) Some li have i: i by (simp add: constructed_def)
  from assms(4) obtain h hi where h: "high b = Some (h, hi)" "h \<le> k"
    by (auto simp: aboveHigh_def split: option.splits)
  from assms(3) Some li h(1) have "l \<le> h" by (simp add: ordered_def)
  with h(2) have "l \<le> k" by simp
  then show ?thesis using Some li i by (auto simp: belowLow_def)
qed

lemma below_not_above:
  assumes "isReverse b" "constructed b" "ordered b" "belowLow b k"
  shows "\<not> aboveHigh b k"
proof (cases "high b")
  case None then show ?thesis by (simp add: aboveHigh_def)
next
  case (Some hi)
  obtain h i where hi: "hi = (h, i)" by (cases hi)
  from assms(1,2) Some hi have i: i by (simp add: constructed_def)
  from assms(4) obtain l li where l: "low b = Some (l, li)" "k \<le> l"
    by (auto simp: belowLow_def split: option.splits)
  from assms(3) Some hi l(1) have "l \<le> h" by (simp add: ordered_def)
  with l(2) have "k \<le> h" by simp
  then show ?thesis using Some hi i by (auto simp: aboveHigh_def)
qed

text \<open>
  C5: in every walk of \<open>Range\<close> for a bounds as the constructors build it, with the low key
  not exceeding the high key, and with enough recursion depth: in a forward walk a visited
  key above the high edge is the last place visited, and in a reverse walk a visited key
  below the low edge is the last place visited. No place is visited after it and the
  sequence ends there.
\<close>
theorem range_stops:
  assumes "depth root \<le> fuel" "constructed b" "ordered b"
  shows "\<exists>log. visited fuel root b yield s = Some log
    \<and> (\<forall>i. Suc i < length log \<longrightarrow>
         (if isReverse b then \<not> belowLow b (snd (log ! i)) else \<not> aboveHigh b (snd (log ! i))))"
proof -
  let ?body = "rangeBody b yield"
  from runYield_logged[of ?body "visits b root" "[]" s] obtain ws zs d s' where
    r: "runYield (logged ?body) (visits b root) ([], s) = (d, ws, s')" and v: "visits b root = ws @ zs"
    and c: "\<forall>p \<in> set (butlast ws). \<exists>s0. fst (?body p s0)" by auto
  have vis: "visited fuel root b yield s = Some ws"
    using rangeWalk_visits[OF assms(1), of b "logged ?body" "([], s)"] r by (simp add: visited_def)
  have stop: "\<not> 0 < Compare b (snd (ws ! i))" if "Suc i < length ws" for i
  proof -
    from that have "ws ! i \<in> set (butlast ws)"
      by (metis Suc_lessD length_butlast less_diff_conv nth_butlast nth_mem Suc_eq_plus1)
    with c obtain s0 where "fst (?body (ws ! i) s0)" by blast
    then show ?thesis by (rule rangeBody_continues)
  qed
  have "if isReverse b then \<not> belowLow b (snd (ws ! i)) else \<not> aboveHigh b (snd (ws ! i))"
    if "Suc i < length ws" for i
  proof (cases "isReverse b")
    case True
    with stop[OF that] below_not_above[OF True assms(2,3)] show ?thesis
      by (auto simp: Compare_pos)
  next
    case False
    with stop[OF that] above_not_below[OF False assms(2,3)] show ?thesis
      by (auto simp: Compare_pos)
  qed
  with vis show ?thesis by blast
qed

section \<open>Concrete runs of Range\<close>

lemmas range_eval = collect_def Range_def visited_def logged_def rangeWalk_def FromTo_def FromDownTo_def
  preOrder_def postOrder_def forwardChildAdj_def reverseChildAdj_def childBounds_def rangeBody_def
  Compare_def belowLow_def aboveHigh_def constructed_def ordered_def

text \<open>
  C4: on the trie holding exactly the keys \<open>[0x10]\<close>, \<open>[0x10, 0x20]\<close> and \<open>[0x11]\<close>, the forward
  range \<open>From([0x10]).To([0x11])\<close> yields \<open>[0x10]\<close> then \<open>[0x10, 0x20]\<close> and not \<open>[0x11]\<close>, and
  the reverse range \<open>From([0x11]).DownTo([0x10])\<close> yields \<open>[0x11]\<close> then \<open>[0x10, 0x20]\<close> and not
  \<open>[0x10]\<close>.
\<close>
theorem range_example:
  "3 \<le> fuel \<Longrightarrow>
   collect fuel (Node 0 [Node v1 [Node v2 [] 0x20 True] 0x10 True, Node v3 [] 0x11 True] 0 False)
     (FromTo [0x10] [0x11]) = Some [([0x10], v1), ([0x10, 0x20], v2)]
   \<and> collect fuel (Node 0 [Node v1 [Node v2 [] 0x20 True] 0x10 True, Node v3 [] 0x11 True] 0 False)
     (FromDownTo [0x11] [0x10]) = Some [([0x11], v3), ([0x10, 0x20], v2)]"
proof -
  assume "3 \<le> fuel"
  then obtain f where f: "fuel = Suc (Suc (Suc f))"
    by (metis Suc_le_D numeral_3_eq_3 Suc_le_mono)
  show ?thesis unfolding f by (simp add: range_eval)
qed

theorem range_example_witness:
  "Put NewPointerTrie (Some [0x10]) (1::nat) = Inr (Node 0 [Node 1 [] 0x10 True] 0 False, 0, False)
   \<and> Put (Node 0 [Node 1 [] 0x10 True] 0 False) (Some [0x11]) (3::nat)
       = Inr (Node 0 [Node 1 [] 0x10 True, Node 3 [] 0x11 True] 0 False, 0, False)
   \<and> Put (Node 0 [Node 1 [] 0x10 True, Node 3 [] 0x11 True] 0 False) (Some [0x10, 0x20]) (2::nat)
       = Inr (Node 0 [Node 1 [Node 2 [] 0x20 True] 0x10 True, Node 3 [] 0x11 True] 0 False, 0, False)
   \<and> collect 3 (Node 0 [Node 1 [Node 2 [] 0x20 True] 0x10 True, Node 3 [] 0x11 True] 0 False)
       (FromTo [0x10] [0x11]) = Some [([0x10], 1::nat), ([0x10, 0x20], 2)]
   \<and> collect 3 (Node 0 [Node 1 [Node 2 [] 0x20 True] 0x10 True, Node 3 [] 0x11 True] 0 False)
       (FromDownTo [0x11] [0x10]) = Some [([0x11], 3::nat), ([0x10, 0x20], 2)]"
proof -
  have "(3::nat) \<le> 3" by simp
  from range_example[OF this, of "1::nat" "2::nat" "3::nat"] show ?thesis
    by (simp add: Put_def NewPointerTrie_def search_def newChain_def insertAt_def)
qed

theorem range_ordered_witness:
  "sortedChildren (Node 0 [Node 1 [Node 2 [] 0x20 True] 0x10 True, Node (3::nat) [] 0x11 True] 0 False)
   \<and> constructed (FromDownTo [0x11] [0x10])
   \<and> depth (Node 0 [Node 1 [Node 2 [] 0x20 True] 0x10 True, Node (3::nat) [] 0x11 True] 0 False) \<le> 3
   \<and> collect 3 (Node 0 [Node 1 [Node 2 [] 0x20 True] 0x10 True, Node (3::nat) [] 0x11 True] 0 False)
       (FromDownTo [0x11] [0x10]) = Some [([0x11], 3), ([0x10, 0x20], 2)]
   \<and> set [([0x11], 3), ([0x10, 0x20], 2)]
       = {(k, v). Get (Node 0 [Node 1 [Node 2 [] 0x20 True] 0x10 True, Node (3::nat) [] 0x11 True] 0 False) (Some k)
                    = Inr (v, True)
                \<and> \<not> belowLow (FromDownTo [0x11] [0x10]) k \<and> \<not> aboveHigh (FromDownTo [0x11] [0x10]) k}"
proof -
  let ?t = "Node 0 [Node 1 [Node 2 [] 0x20 True] 0x10 True, Node (3::nat) [] 0x11 True] 0 False"
  let ?b = "FromDownTo [0x11] [0x10]"
  have h1: "sortedChildren ?t" by simp
  have h2: "constructed ?b" by (simp add: constructed_def FromDownTo_def)
  have h3: "depth ?t \<le> 3" by simp
  have c: "collect 3 ?t ?b = Some [([0x11], 3), ([0x10, 0x20], 2)]"
    by (simp add: range_eval numeral_3_eq_3)
  from range_ordered[OF h1 h2 h3] c
  have "set [([0x11], 3), ([0x10, 0x20], 2)]
       = {(k, v). Get ?t (Some k) = Inr (v, True) \<and> \<not> belowLow ?b k \<and> \<not> aboveHigh ?b k}"
    by auto
  with h1 h2 h3 c show ?thesis by blast
qed

theorem range_stops_witness:
  "depth (Node 0 [Node 1 [Node 2 [] 0x20 True] 0x10 True, Node (3::nat) [] 0x11 True] 0 False) \<le> 3
   \<and> constructed (FromTo [0x10] [0x11]) \<and> ordered (FromTo [0x10] [0x11])
   \<and> map snd (the (visited 3 (Node 0 [Node 1 [Node 2 [] 0x20 True] 0x10 True, Node (3::nat) [] 0x11 True] 0 False)
        (FromTo [0x10] [0x11]) (\<lambda>k v acc. (True, acc @ [(k, v)])) []))
      = [[], [0x10], [0x10, 0x20], [0x11]]
   \<and> aboveHigh (FromTo [0x10] [0x11]) [0x11]
   \<and> \<not> aboveHigh (FromTo [0x10] [0x11]) [0x10, 0x20]
   \<and> constructed (FromDownTo [0x11] [0x10, 0x20]) \<and> ordered (FromDownTo [0x11] [0x10, 0x20])
   \<and> map snd (the (visited 3 (Node 0 [Node 1 [Node 2 [] 0x20 True] 0x10 True, Node (3::nat) [] 0x11 True] 0 False)
        (FromDownTo [0x11] [0x10, 0x20]) (\<lambda>k v acc. (True, acc @ [(k, v)])) []))
      = [[0x11], [0x10, 0x20]]
   \<and> belowLow (FromDownTo [0x11] [0x10, 0x20]) [0x10, 0x20]
   \<and> \<not> belowLow (FromDownTo [0x11] [0x10, 0x20]) [0x11]"
proof -
  let ?t = "Node 0 [Node 1 [Node 2 [] 0x20 True] 0x10 True, Node (3::nat) [] 0x11 True] 0 False"
  let ?f = "FromTo [0x10] [0x11]"
  let ?r = "FromDownTo [0x11] [0x10, 0x20]"
  let ?y = "\<lambda>k v acc. (True, acc @ [(k :: byte list, v :: nat)])"
  have d: "depth ?t \<le> 3" by simp
  have vf: "visited 3 ?t ?f ?y [] = Some [(?t, []), (Node 1 [Node 2 [] 0x20 True] 0x10 True, [0x10]),
      (Node 2 [] 0x20 True, [0x10, 0x20]), (Node 3 [] 0x11 True, [0x11])]"
    by (simp add: range_eval numeral_3_eq_3)
  have vr: "visited 3 ?t ?r ?y [] = Some [(Node 3 [] 0x11 True, [0x11]), (Node 2 [] 0x20 True, [0x10, 0x20])]"
    by (simp add: range_eval numeral_3_eq_3)
  have cf: "constructed ?f" "ordered ?f" by (simp_all add: range_eval)
  have cr: "constructed ?r" "ordered ?r" by (simp_all add: range_eval)
  have nf: "\<not> isReverse ?f" and nr: "isReverse ?r" by (simp_all add: range_eval)
  from range_stops[OF d cf, of ?y "[]"] vf nf
  have "\<forall>i. Suc i < 4 \<longrightarrow> \<not> aboveHigh ?f (snd ([(?t, []), (Node 1 [Node 2 [] 0x20 True] 0x10 True, [0x10]),
      (Node 2 [] 0x20 True, [0x10, 0x20]), (Node 3 [] 0x11 True, [0x11])] ! i))"
    by auto
  from this[rule_format, of 2] have a: "\<not> aboveHigh ?f [0x10, 0x20]" by simp
  from range_stops[OF d cr, of ?y "[]"] vr nr
  have "\<forall>i. Suc i < 2 \<longrightarrow> \<not> belowLow ?r (snd ([(Node 3 [] 0x11 True, [0x11]),
      (Node (2::nat) [] 0x20 True, [0x10, 0x20])] ! i))"
    by auto
  from this[rule_format, of 0] have b0: "\<not> belowLow ?r [0x11]" by simp
  have ah: "aboveHigh ?f [0x11]" by (simp add: range_eval)
  have bl: "belowLow ?r [0x10, 0x20]" by (simp add: range_eval)
  show ?thesis using d cf cr vf vr a b0 ah bl by simp
qed

end
